theory Spec2Isabelle
  imports Main "HOL-Library.Sublist"
begin

section \<open>Strings of the source language\<close>

text \<open>
  A JavaScript string is a sequence of UTF-16 code units. A code unit is modelled as a
  natural number, so the line terminators U+2028 and U+2029, the Unicode spaces removed by
  \<open>trim\<close> and the non-ASCII default error message of the component are all written
  exactly. \<open>lit\<close> turns an ASCII literal into code units.
\<close>

type_synonym jsstring = "nat list"

definition lit :: "string \<Rightarrow> jsstring" where
  "lit s = map of_char s"

text \<open>ECMAScript \<open>LineTerminator\<close>: LF, CR, LS (U+2028), PS (U+2029).\<close>

definition isLineTerminator :: "nat \<Rightarrow> bool" where
  "isLineTerminator c = (c = 10 \<or> c = 13 \<or> c = 8232 \<or> c = 8233)"

text \<open>
  ECMAScript \<open>WhiteSpace\<close>: TAB, VT, FF, ZWNBSP (U+FEFF) and the code points of category
  Zs: U+0020, U+00A0, U+1680, U+2000 .. U+200A, U+202F, U+205F, U+3000.
\<close>

definition isWhiteSpace :: "nat \<Rightarrow> bool" where
  "isWhiteSpace c = (c = 9 \<or> c = 11 \<or> c = 12 \<or> c = 32 \<or> c = 160 \<or> c = 5760 \<or>
     (8192 \<le> c \<and> c \<le> 8202) \<or> c = 8239 \<or> c = 8287 \<or> c = 12288 \<or> c = 65279)"

text \<open>\<open>String.prototype.trim\<close>: white space and line terminators go from both ends.\<close>

definition trim :: "jsstring \<Rightarrow> jsstring" where
  "trim s = rev (dropWhile (\<lambda>c. isWhiteSpace c \<or> isLineTerminator c)
              (rev (dropWhile (\<lambda>c. isWhiteSpace c \<or> isLineTerminator c) s)))"

text \<open>
  \<open>startsWith p xs\<close> is the rest of \<open>xs\<close> after the literal \<open>p\<close>, when \<open>xs\<close> begins
  with \<open>p\<close>: how the matcher consumes the literal characters of a pattern.
\<close>

fun startsWith :: "jsstring \<Rightarrow> jsstring \<Rightarrow> jsstring option" where
  "startsWith [] xs = Some xs"
| "startsWith (p # ps) [] = None"
| "startsWith (p # ps) (x # xs) = (if p = x then startsWith ps xs else None)"

text \<open>\<open>String.prototype.includes\<close>: the needle occurs as a contiguous run of code units.\<close>

fun includes_str :: "jsstring \<Rightarrow> jsstring \<Rightarrow> bool" where
  "includes_str [] needle = (needle = [])"
| "includes_str (x # xs) needle = (startsWith needle (x # xs) \<noteq> None \<or> includes_str xs needle)"

section \<open>The delegation directive pattern\<close>

text \<open>
  \<^verbatim>\<open>const delegateRegex = /:::DELEGATE:::(.+?):::(.+?):::/g;\<close>

  The pattern is a literal, a lazy group, the separator, a second lazy group and the
  separator again. Without the \<open>s\<close> flag the dot matches any code unit that is not a line
  terminator. The matcher is the backtracking one of the language: a lazy \<open>.+?\<close> takes one
  character, tries the rest of the pattern, and takes one character more each time the
  rest fails.
\<close>

definition sentinel :: jsstring where
  "sentinel = lit '':::DELEGATE:::''"

definition separator :: jsstring where
  "separator = lit '':::''"

text \<open>
  \<open>lazyPlus k g xs\<close>: the group has taken \<open>g\<close> so far, \<open>k\<close> matches the rest of the
  pattern. The result is the text of the group and what \<open>k\<close> returned.
\<close>

fun lazyPlus :: "(jsstring \<Rightarrow> 'a option) \<Rightarrow> jsstring \<Rightarrow> jsstring \<Rightarrow> (jsstring \<times> 'a) option" where
  "lazyPlus k g [] = None"
| "lazyPlus k g (x # xs) =
     (if isLineTerminator x then None
      else (case k xs of
              Some r \<Rightarrow> Some (g @ [x], r)
            | None \<Rightarrow> lazyPlus k (g @ [x]) xs))"

text \<open>The pattern after the first group: separator, second group, separator.\<close>

definition afterTarget :: "jsstring \<Rightarrow> (jsstring \<times> jsstring) option" where
  "afterTarget xs =
     (case startsWith separator xs of
        None \<Rightarrow> None
      | Some ys \<Rightarrow> lazyPlus (startsWith separator) [] ys)"

text \<open>
  A match of the whole pattern at the start of \<open>xs\<close>: the two captured groups and the
  text after the match.
\<close>

definition matchAt :: "jsstring \<Rightarrow> (jsstring \<times> jsstring \<times> jsstring) option" where
  "matchAt xs =
     (case startsWith sentinel xs of
        None \<Rightarrow> None
      | Some ys \<Rightarrow>
          (case lazyPlus afterTarget [] ys of
             None \<Rightarrow> None
           | Some (target, instr, rest) \<Rightarrow> Some (target, instr, rest)))"

text \<open>
  One \<open>exec\<close> of the global pattern from the current \<open>lastIndex\<close>: the leftmost position
  with a match. The result is the text skipped before the match, the two groups and the
  text after the match (where \<open>lastIndex\<close> then points). The pattern never matches the
  empty string, so the position at the end of the text has no match.
\<close>

fun exec :: "jsstring \<Rightarrow> (jsstring \<times> jsstring \<times> jsstring \<times> jsstring) option" where
  "exec [] = None"
| "exec (x # xs) =
     (case matchAt (x # xs) of
        Some (target, instr, rest) \<Rightarrow> Some ([], target, instr, rest)
      | None \<Rightarrow>
          (case exec xs of
             None \<Rightarrow> None
           | Some (skipped, target, instr, rest) \<Rightarrow> Some (x # skipped, target, instr, rest)))"

section \<open>Properties of the matcher\<close>

lemma startsWith_append: "startsWith p xs = Some r \<Longrightarrow> xs = p @ r"
  by (induction p xs rule: startsWith.induct) (auto split: if_splits)

lemma startsWith_length: "startsWith p xs = Some r \<Longrightarrow> length xs = length p + length r"
  by (drule startsWith_append) simp

lemma lazyPlus_length:
  assumes "lazyPlus k g xs = Some (grp, r)"
    and "\<And>ys r'. k ys = Some r' \<Longrightarrow> len r' \<le> length ys"
  shows "len r < length xs"
  using assms
proof (induction xs arbitrary: g)
  case Nil
  then show ?case by simp
next
  case (Cons x xs)
  show ?case
  proof (cases "k xs")
    case None
    with Cons.prems(1) have "lazyPlus k (g @ [x]) xs = Some (grp, r)"
      by (simp split: if_splits)
    from Cons.IH[OF this Cons.prems(2)] show ?thesis by simp
  next
    case (Some r')
    with Cons.prems(1) have "r' = r" by (simp split: if_splits)
    with Some Cons.prems(2)[of xs r'] show ?thesis by simp
  qed
qed

lemma afterTarget_length:
  assumes "afterTarget xs = Some (instr, rest)"
  shows "length rest \<le> length xs"
proof -
  from assms obtain ys where ys: "startsWith separator xs = Some ys"
    and lp: "lazyPlus (startsWith separator) [] ys = Some (instr, rest)"
    by (auto simp: afterTarget_def split: option.splits)
  have "length rest < length ys"
    by (rule lazyPlus_length[OF lp, where len = length]) (simp add: startsWith_length)
  with startsWith_length[OF ys] show ?thesis by simp
qed

lemma matchAt_length:
  assumes "matchAt xs = Some (target, instr, rest)"
  shows "length rest < length xs"
proof -
  from assms obtain ys where ys: "startsWith sentinel xs = Some ys"
    and lp: "lazyPlus afterTarget [] ys = Some (target, instr, rest)"
    by (auto simp: matchAt_def split: option.splits)
  have "(\<lambda>(i, r). length r) (instr, rest) < length ys"
    by (rule lazyPlus_length[OF lp]) (auto dest: afterTarget_length)
  with startsWith_length[OF ys] show ?thesis by simp
qed

lemma exec_length:
  "exec xs = Some (skipped, target, instr, rest) \<Longrightarrow> length rest < length xs"
proof (induction xs arbitrary: skipped)
  case Nil
  then show ?case by simp
next
  case (Cons x xs)
  show ?case
  proof (cases "matchAt (x # xs)")
    case None
    with Cons.prems obtain sk where "exec xs = Some (sk, target, instr, rest)"
      by (auto split: option.splits)
    from Cons.IH[OF this] show ?thesis by simp
  next
    case (Some m)
    with Cons.prems have "matchAt (x # xs) = Some (target, instr, rest)"
      by (auto split: prod.splits)
    then show ?thesis by (rule matchAt_length)
  qed
qed


section \<open>The scan for directives and the cleaning of the text\<close>

text \<open>
  \<^verbatim>\<open>while ((match = delegateRegex.exec(result.resultContent)) !== null) { ... }\<close>

  The loop calls \<open>exec\<close> until it finds nothing; each call resumes after the previous
  match. \<open>execAll\<close> is the list of the captured pairs, in the order of the text.
\<close>

function execAll :: "jsstring \<Rightarrow> (jsstring \<times> jsstring) list" where
  "execAll text =
     (case exec text of
        None \<Rightarrow> []
      | Some (skipped, target, instr, rest) \<Rightarrow> (target, instr) # execAll rest)"
  by pat_completeness auto
termination
  by (relation "measure length") (auto dest: exec_length)

text \<open>
  \<^verbatim>\<open>result.resultContent = result.resultContent.replace(delegateRegex, '');\<close>

  \<open>replace\<close> with a global pattern starts at index 0 whatever \<open>lastIndex\<close> was, and
  removes every match of one scan from left to right; the text between the matches is
  kept as it is.
\<close>

function stripDirectives :: "jsstring \<Rightarrow> jsstring" where
  "stripDirectives text =
     (case exec text of
        None \<Rightarrow> text
      | Some (skipped, target, instr, rest) \<Rightarrow> skipped @ stripDirectives rest)"
  by pat_completeness auto
termination
  by (relation "measure length") (auto dest: exec_length)


declare execAll.simps [simp del] stripDirectives.simps [simp del]

section \<open>Data of the task component\<close>

text \<open>
  \<open>ExpertRole\<close> is a union of nine string literals: business consulting, finance,
  venture capital, operations, legal, engineering, construction, marketing, custom.
\<close>

datatype ExpertRole =
  BusinessConsulting | Finance | VentureCapital | Operations | Legal
  | Development | Construction | Marketing | Custom

record Expert =
  e_id :: jsstring
  e_name :: jsstring
  e_role :: ExpertRole
  e_avatar :: jsstring
  e_description :: jsstring
  e_isCustom :: bool

record TaskResult =
  r_id :: jsstring
  r_expertId :: jsstring
  r_expertName :: jsstring
  r_expertAvatar :: jsstring
  r_taskDescription :: jsstring
  r_resultContent :: jsstring
  r_timestamp :: nat
  r_triggerBy :: "jsstring option"

datatype status = Pending | Success | Error

record PendingTask =
  p_id :: jsstring
  p_expertId :: jsstring
  p_expertName :: jsstring
  p_expertAvatar :: jsstring
  p_status :: status
  p_errorMessage :: "jsstring option"
  p_triggerBy :: "jsstring option"

record TeamTasksProps =
  team :: "Expert list"
  projectDescription :: jsstring

text \<open>
  The arguments of one call of \<open>executeSingleTask\<close>: the expert, the instruction, who
  triggered it (\<open>undefined\<close> for a task of the user) and the depth.
\<close>

record TaskInvocation =
  i_expert :: Expert
  i_instruction :: jsstring
  i_triggerBy :: "jsstring option"
  i_depth :: nat

text \<open>The only notice the component ever stores: the user stopped the interaction.\<close>

datatype notice = UserTerminated

text \<open>
  The state of the component: its React state, the flag \<open>stopAutoExecutionRef.current\<close>,
  and what the runtime holds for it: the calls of \<open>executeSingleTask\<close> suspended at
  \<open>await runExpertTask\<close> (\<open>awaiting\<close>), and the callbacks given to \<open>setTimeout\<close> that
  have not run yet, each with the follow-up calls it will make (\<open>timers\<close>).
  The properties \<open>team\<close> and \<open>projectDescription\<close> do not change during a run.
  The model that answers is chosen outside: how a call of the adapter ends is an input
  of the run.
\<close>

record state =
  taskInput :: jsstring
  showMentionList :: bool
  selectedExpertIds :: "jsstring set"
  taskResults :: "TaskResult list"
  pendingTasks :: "PendingTask list"
  activeTaskCount :: int
  terminationMessage :: "notice option"
  stopAutoExecutionRef :: bool
  awaiting :: "TaskInvocation list"
  timers :: "TaskInvocation list list"

text \<open>
  \<^verbatim>\<open>new Set(team.length > 0 ? [team[0].id] : [])\<close> and the other initial values of the
  hooks.
\<close>

definition initialState :: "TeamTasksProps \<Rightarrow> state" where
  "initialState props =
     \<lparr>taskInput = [], showMentionList = False,
      selectedExpertIds = (case team props of [] \<Rightarrow> {} | e # _ \<Rightarrow> {e_id e}),
      taskResults = [], pendingTasks = [], activeTaskCount = 0,
      terminationMessage = None, stopAutoExecutionRef = False,
      awaiting = [], timers = []\<rparr>"

section \<open>executeSingleTask\<close>

definition MAX_DEPTH :: nat where
  "MAX_DEPTH = 2"

text \<open>Decimal digits of a number, as a template literal prints it.\<close>

fun showNat :: "nat \<Rightarrow> jsstring" where
  "showNat n = (if n < 10 then [48 + n] else showNat (n div 10) @ [48 + n mod 10])"

declare showNat.simps [simp del]

text \<open>\<^verbatim>\<open>`pending_${Date.now()}_${expert.id}`\<close>\<close>

definition pendingId :: "nat \<Rightarrow> Expert \<Rightarrow> jsstring" where
  "pendingId now expert = lit ''pending_'' @ showNat now @ lit ''_'' @ e_id expert"

text \<open>\<^verbatim>\<open>setActiveTaskCount(prev => Math.max(0, prev - 1))\<close>\<close>

definition decrementActive :: "state \<Rightarrow> state" where
  "decrementActive s = s\<lparr>activeTaskCount := max 0 (activeTaskCount s - 1)\<rparr>"

text \<open>
  The call up to its \<open>await\<close>. With the stop flag set the call gives its place in the
  counter back and returns. Otherwise it appends its pending marker and suspends in
  \<open>runExpertTask\<close>; \<open>now\<close> is what \<open>Date.now()\<close> returns.
\<close>

definition executeSingleTask_start :: "nat \<Rightarrow> TaskInvocation \<Rightarrow> state \<Rightarrow> state" where
  "executeSingleTask_start now call s =
     (if stopAutoExecutionRef s then decrementActive s
      else s\<lparr>pendingTasks := pendingTasks s @
                 [\<lparr>p_id = pendingId now (i_expert call),
                   p_expertId = e_id (i_expert call),
                   p_expertName = e_name (i_expert call),
                   p_expertAvatar = e_avatar (i_expert call),
                   p_status = Pending,
                   p_errorMessage = None,
                   p_triggerBy = i_triggerBy call\<rparr>],
             awaiting := awaiting s @ [call]\<rparr>)"

text \<open>
  The object \<open>runExpertTask\<close> returns for the text of the model; the identifier (made of
  the clock and a random number) and the time stamp come with the answer.
\<close>

definition runExpertTask_result :: "Expert \<Rightarrow> jsstring \<Rightarrow> jsstring \<Rightarrow> jsstring \<Rightarrow> nat \<Rightarrow> TaskResult" where
  "runExpertTask_result expert taskDescription responseText rid now =
     \<lparr>r_id = rid, r_expertId = e_id expert, r_expertName = e_name expert,
      r_expertAvatar = e_avatar expert, r_taskDescription = taskDescription,
      r_resultContent = responseText, r_timestamp = now, r_triggerBy = None\<rparr>"

text \<open>
  The body of the scan loop, for the matches in their order. \<open>toLowerCase\<close> is the case
  conversion of the language, a table of Unicode that is not part of this repository: it
  is a parameter of the model.

  \<^verbatim>\<open>const targetExpert = team.find(e => e.name.toLowerCase().includes(targetNamePartial.trim().toLowerCase()));
  if (targetExpert && targetExpert.id !== expert.id) {
     followUpTasks.push({ target: targetExpert, instruction: nextInstruction });
  }\<close>
\<close>

definition findTarget :: "(jsstring \<Rightarrow> jsstring) \<Rightarrow> Expert list \<Rightarrow> jsstring \<Rightarrow> Expert option" where
  "findTarget toLowerCase tm targetNamePartial =
     find (\<lambda>e. includes_str (toLowerCase (e_name e)) (toLowerCase (trim targetNamePartial))) tm"

fun pushFollowUps :: "(jsstring \<Rightarrow> jsstring) \<Rightarrow> Expert list \<Rightarrow> Expert \<Rightarrow>
    (jsstring \<times> jsstring) list \<Rightarrow> (Expert \<times> jsstring) list" where
  "pushFollowUps toLowerCase tm expert [] = []"
| "pushFollowUps toLowerCase tm expert ((targetNamePartial, nextInstruction) # ms) =
     (case findTarget toLowerCase tm targetNamePartial of
        None \<Rightarrow> pushFollowUps toLowerCase tm expert ms
      | Some targetExpert \<Rightarrow>
          (if e_id targetExpert \<noteq> e_id expert
           then (targetExpert, nextInstruction) # pushFollowUps toLowerCase tm expert ms
           else pushFollowUps toLowerCase tm expert ms))"

text \<open>\<^verbatim>\<open>if (depth < MAX_DEPTH) { while (...) {...} }\<close>\<close>

definition followUpTasks :: "(jsstring \<Rightarrow> jsstring) \<Rightarrow> Expert list \<Rightarrow> Expert \<Rightarrow> nat \<Rightarrow>
    jsstring \<Rightarrow> (Expert \<times> jsstring) list" where
  "followUpTasks toLowerCase tm expert depth resultContent =
     (if depth < MAX_DEPTH then pushFollowUps toLowerCase tm expert (execAll resultContent)
      else [])"

text \<open>
  The calls the timer will make:
  \<^verbatim>\<open>executeSingleTask(task.target, task.instruction, expert.name, depth + 1)\<close>
\<close>

definition followUpCalls :: "Expert \<Rightarrow> nat \<Rightarrow> (Expert \<times> jsstring) list \<Rightarrow> TaskInvocation list" where
  "followUpCalls expert depth fs =
     map (\<lambda>(target, instruction).
            \<lparr>i_expert = target, i_instruction = instruction,
             i_triggerBy = Some (e_name expert), i_depth = depth + 1\<rparr>) fs"

text \<open>
  The rest of the \<open>try\<close> block once \<open>runExpertTask\<close> has returned, then \<open>finally\<close>.
  An empty string is falsy, so an empty \<open>triggerBy\<close> is not attached to the result.
\<close>

definition executeSingleTask_fulfilled :: "(jsstring \<Rightarrow> jsstring) \<Rightarrow> TeamTasksProps \<Rightarrow>
    TaskInvocation \<Rightarrow> jsstring \<Rightarrow> jsstring \<Rightarrow> nat \<Rightarrow> state \<Rightarrow> state" where
  "executeSingleTask_fulfilled toLowerCase props call responseText rid now s =
     (let expert = i_expert call;
          depth = i_depth call;
          result0 = runExpertTask_result expert (i_instruction call) responseText rid now;
          result1 = (case i_triggerBy call of
                       None \<Rightarrow> result0
                     | Some t \<Rightarrow> if t \<noteq> [] then result0\<lparr>r_triggerBy := Some t\<rparr> else result0);
          followUps = followUpTasks toLowerCase (team props) expert depth (r_resultContent result1);
          result2 = result1\<lparr>r_resultContent := stripDirectives (r_resultContent result1)\<rparr>;
          s1 = s\<lparr>taskResults := result2 # taskResults s,
                 pendingTasks := filter (\<lambda>p. p_expertId p \<noteq> e_id expert) (pendingTasks s)\<rparr>;
          willContinue = (followUps \<noteq> [] \<and> depth < MAX_DEPTH \<and> \<not> stopAutoExecutionRef s);
          s2 = (if willContinue
                then s1\<lparr>activeTaskCount := activeTaskCount s1 + int (length followUps),
                        timers := timers s1 @ [followUpCalls expert depth followUps]\<rparr>
                else s1)
      in decrementActive s2)"

text \<open>The default message of the \<open>catch\<close> block (four code units, "unknown error").\<close>

definition unknownError :: jsstring where
  "unknownError = [26410, 30693, 38169, 35823]"

text \<open>
  The \<open>catch\<close> block, then \<open>finally\<close>. \<open>message\<close> is \<open>error?.message\<close>, absent when
  the thrown value has none.
\<close>

definition executeSingleTask_rejected :: "TaskInvocation \<Rightarrow> jsstring option \<Rightarrow> state \<Rightarrow> state" where
  "executeSingleTask_rejected call message s =
     (let expert = i_expert call;
          errMessage = (case message of
                          None \<Rightarrow> unknownError
                        | Some m \<Rightarrow> if m \<noteq> [] then m else unknownError);
          s1 = s\<lparr>pendingTasks :=
                   map (\<lambda>p. if p_expertId p = e_id expert
                            then p\<lparr>p_status := Error, p_errorMessage := Some errMessage\<rparr>
                            else p) (pendingTasks s)\<rparr>
      in decrementActive s1)"


section \<open>The handlers of the component\<close>

text \<open>\<open>handleStopExecution\<close>: the flag is set and the notice is shown; the counter is left alone.\<close>

definition handleStopExecution :: "state \<Rightarrow> state" where
  "handleStopExecution s = s\<lparr>stopAutoExecutionRef := True, terminationMessage := Some UserTerminated\<rparr>"

text \<open>The three messages \<open>handleExecuteBatchTasks\<close> can show with \<open>alert\<close>, in its order.\<close>

datatype alert = NoExpertSelected | EmptyTask | EmptyProject

text \<open>
  \<open>handleExecuteBatchTasks\<close>: an alert and nothing else, or the reset of the flag, the
  counter set to the number of selected experts of the team, and one call of
  \<open>executeSingleTask(expert, taskInput, undefined, 0)\<close> for each, in the order of the
  team. The calls read the task text of the render, not the cleared one.
\<close>

definition handleExecuteBatchTasks :: "TeamTasksProps \<Rightarrow> nat \<Rightarrow> state \<Rightarrow> alert + state" where
  "handleExecuteBatchTasks props now s =
     (if selectedExpertIds s = {} then Inl NoExpertSelected
      else if trim (taskInput s) = [] then Inl EmptyTask
      else if trim (projectDescription props) = [] then Inl EmptyProject
      else
        (let selectedExperts = filter (\<lambda>e. e_id e \<in> selectedExpertIds s) (team props);
             s1 = s\<lparr>stopAutoExecutionRef := False, terminationMessage := None,
                    taskInput := [], showMentionList := False,
                    activeTaskCount := int (length selectedExperts)\<rparr>
         in Inr (fold (\<lambda>expert. executeSingleTask_start now
                         \<lparr>i_expert = expert, i_instruction = taskInput s,
                          i_triggerBy = None, i_depth = 0\<rparr>)
                   selectedExperts s1)))"

definition handleDeleteResult :: "jsstring \<Rightarrow> state \<Rightarrow> state" where
  "handleDeleteResult rid s = s\<lparr>taskResults := filter (\<lambda>r. r_id r \<noteq> rid) (taskResults s)\<rparr>"

definition handleClearPending :: "jsstring \<Rightarrow> state \<Rightarrow> state" where
  "handleClearPending expertId s =
     s\<lparr>pendingTasks := filter (\<lambda>p. p_expertId p \<noteq> expertId) (pendingTasks s)\<rparr>"

definition toggleExpertSelection :: "jsstring \<Rightarrow> state \<Rightarrow> state" where
  "toggleExpertSelection eid s =
     (if eid \<in> selectedExpertIds s
      then s\<lparr>selectedExpertIds := selectedExpertIds s - {eid}\<rparr>
      else s\<lparr>selectedExpertIds := insert eid (selectedExpertIds s)\<rparr>)"

definition selectAllExperts :: "TeamTasksProps \<Rightarrow> state \<Rightarrow> state" where
  "selectAllExperts props s =
     (if card (selectedExpertIds s) = length (team props)
      then s\<lparr>selectedExpertIds := {}\<rparr>
      else s\<lparr>selectedExpertIds := set (map e_id (team props))\<rparr>)"

definition handleInputStringChange :: "jsstring \<Rightarrow> state \<Rightarrow> state" where
  "handleInputStringChange val s =
     (let s1 = s\<lparr>taskInput := val\<rparr>
      in if val \<noteq> [] \<and> last val = 64 then s1\<lparr>showMentionList := True\<rparr>
         else if showMentionList s \<and> \<not> includes_str val [64] then s1\<lparr>showMentionList := False\<rparr>
         else s1)"

definition handleMentionSelect :: "Expert \<Rightarrow> state \<Rightarrow> state" where
  "handleMentionSelect expert s =
     s\<lparr>taskInput := taskInput s @ e_name expert @ [32],
       selectedExpertIds := insert (e_id expert) (selectedExpertIds s),
       showMentionList := False\<rparr>"

section \<open>Runs of the component\<close>

text \<open>
  How a call of \<open>runExpertTask\<close> ends: with the text of the model (and the identifier
  and time stamp of the result object), or with a thrown value and its message.
\<close>

datatype settlement = Fulfilled jsstring jsstring nat | Rejected "jsstring option"

text \<open>
  What can happen to the component: an action of the user, the end of an awaited call, a
  timer. \<open>Settle i\<close> is the end of the \<open>i\<close>-th suspended call, \<open>TimerFires i\<close> the run
  of the \<open>i\<close>-th callback that waits; any of them may be next, which covers every order
  the runtime can choose. The numbers with \<open>ClickExecute\<close> and \<open>TimerFires\<close> are what
  \<open>Date.now()\<close> returns during the handler.
\<close>

datatype event =
    InputChange jsstring
  | ToggleExpert jsstring
  | SelectAll
  | MentionSelect Expert
  | ClickExecute nat
  | ClickStop
  | DismissNotice
  | DeleteResult jsstring
  | ClearResults
  | ClearPending jsstring
  | Settle nat settlement
  | TimerFires nat nat

text \<open>\<^verbatim>\<open>const isProcessing = activeTaskCount > 0;\<close>\<close>

definition isProcessing :: "state \<Rightarrow> bool" where
  "isProcessing s = (activeTaskCount s > 0)"

text \<open>
  The execute button is the only caller of \<open>handleExecuteBatchTasks\<close>:
  \<^verbatim>\<open>disabled={isProcessing || !taskInput.trim() || selectedExpertIds.size === 0}\<close>
\<close>

definition executeDisabled :: "state \<Rightarrow> bool" where
  "executeDisabled s = (isProcessing s \<or> trim (taskInput s) = [] \<or> selectedExpertIds s = {})"

definition settle :: "(jsstring \<Rightarrow> jsstring) \<Rightarrow> TeamTasksProps \<Rightarrow> TaskInvocation \<Rightarrow>
    settlement \<Rightarrow> state \<Rightarrow> state" where
  "settle toLowerCase props call outcome s =
     (case outcome of
        Fulfilled responseText rid now \<Rightarrow>
          executeSingleTask_fulfilled toLowerCase props call responseText rid now s
      | Rejected message \<Rightarrow> executeSingleTask_rejected call message s)"

text \<open>The list without its \<open>i\<close>-th element: a suspended call or a timer leaves the runtime.\<close>

definition removeAt :: "nat \<Rightarrow> 'a list \<Rightarrow> 'a list" where
  "removeAt i xs = take i xs @ drop (Suc i) xs"

text \<open>
  One event. \<open>None\<close> means that the event cannot happen in this state: the button is
  disabled or not shown, or there is no such suspended call or timer.
\<close>

fun applyEvent :: "(jsstring \<Rightarrow> jsstring) \<Rightarrow> TeamTasksProps \<Rightarrow> event \<Rightarrow> state \<Rightarrow> state option" where
  "applyEvent toLowerCase props (InputChange val) s = Some (handleInputStringChange val s)"
| "applyEvent toLowerCase props (ToggleExpert eid) s =
     (if eid \<in> set (map e_id (team props)) then Some (toggleExpertSelection eid s) else None)"
| "applyEvent toLowerCase props SelectAll s = Some (selectAllExperts props s)"
| "applyEvent toLowerCase props (MentionSelect expert) s =
     (if showMentionList s \<and> expert \<in> set (team props)
      then Some (handleMentionSelect expert s) else None)"
| "applyEvent toLowerCase props (ClickExecute now) s =
     (if executeDisabled s then None
      else (case handleExecuteBatchTasks props now s of
              Inl a \<Rightarrow> Some s
            | Inr s' \<Rightarrow> Some s'))"
| "applyEvent toLowerCase props ClickStop s =
     (if isProcessing s then Some (handleStopExecution s) else None)"
| "applyEvent toLowerCase props DismissNotice s = Some (s\<lparr>terminationMessage := None\<rparr>)"
| "applyEvent toLowerCase props (DeleteResult rid) s = Some (handleDeleteResult rid s)"
| "applyEvent toLowerCase props ClearResults s = Some (s\<lparr>taskResults := []\<rparr>)"
| "applyEvent toLowerCase props (ClearPending expertId) s = Some (handleClearPending expertId s)"
| "applyEvent toLowerCase props (Settle i outcome) s =
     (if i < length (awaiting s)
      then Some (settle toLowerCase props (awaiting s ! i) outcome
                   (s\<lparr>awaiting := removeAt i (awaiting s)\<rparr>))
      else None)"
| "applyEvent toLowerCase props (TimerFires i now) s =
     (if i < length (timers s)
      then Some (fold (executeSingleTask_start now) (timers s ! i)
                   (s\<lparr>timers := removeAt i (timers s)\<rparr>))
      else None)"

fun run :: "(jsstring \<Rightarrow> jsstring) \<Rightarrow> TeamTasksProps \<Rightarrow> event list \<Rightarrow> state \<Rightarrow> state option" where
  "run toLowerCase props [] s = Some s"
| "run toLowerCase props (ev # evs) s =
     (case applyEvent toLowerCase props ev s of
        None \<Rightarrow> None
      | Some s' \<Rightarrow> run toLowerCase props evs s')"

text \<open>
  The case conversion on the letters A to Z, for concrete runs whose names are ASCII; on
  such names it is what \<open>toLowerCase\<close> of the language returns.
\<close>

definition asciiLower :: "jsstring \<Rightarrow> jsstring" where
  "asciiLower = map (\<lambda>c. if 65 \<le> c \<and> c \<le> 90 then c + 32 else c)"

section \<open>Invariants of the runs\<close>

text \<open>The marker a call appends when it starts.\<close>

definition markerOf :: "nat \<Rightarrow> TaskInvocation \<Rightarrow> PendingTask" where
  "markerOf now call =
     \<lparr>p_id = pendingId now (i_expert call), p_expertId = e_id (i_expert call),
      p_expertName = e_name (i_expert call), p_expertAvatar = e_avatar (i_expert call),
      p_status = Pending, p_errorMessage = None, p_triggerBy = i_triggerBy call\<rparr>"

text \<open>
  What every reachable state satisfies: the counter counts the suspended calls and the
  calls that wait in timers; no timer waits with nothing to do; every marker that still
  says pending belongs to the expert of a suspended call; no call is deeper than the
  maximum.
\<close>

definition counted :: "state \<Rightarrow> bool" where
  "counted s = (activeTaskCount s = int (length (awaiting s)) + int (length (concat (timers s))))"

definition consistent :: "state \<Rightarrow> bool" where
  "consistent s =
     (counted s \<and> [] \<notin> set (timers s) \<and>
      (\<forall>p \<in> set (pendingTasks s). p_status p = Pending \<longrightarrow>
         (\<exists>c \<in> set (awaiting s). e_id (i_expert c) = p_expertId p)) \<and>
      (\<forall>c \<in> set (awaiting s) \<union> set (concat (timers s)). i_depth c \<le> MAX_DEPTH))"

lemma removeAt_length: "i < length xs \<Longrightarrow> length (removeAt i xs) + 1 = length xs"
  by (simp add: removeAt_def)

lemma removeAt_set: "set (removeAt i xs) \<subseteq> set xs"
  by (auto simp: removeAt_def dest: in_set_takeD in_set_dropD)

lemma removeAt_split: "i < length xs \<Longrightarrow> xs = take i xs @ (xs ! i) # drop (Suc i) xs"
  by (rule id_take_nth_drop)

lemma removeAt_other:
  assumes "i < length xs" "c \<in> set xs" "c \<noteq> xs ! i"
  shows "c \<in> set (removeAt i xs)"
proof -
  have "set xs = set (take i xs) \<union> {xs ! i} \<union> set (drop (Suc i) xs)"
  proof -
    have "set xs = set (take i xs @ (xs ! i) # drop (Suc i) xs)"
      using removeAt_split[OF assms(1)] by simp
    then show ?thesis by simp
  qed
  with assms(2,3) show ?thesis by (auto simp: removeAt_def)
qed

lemma removeAt_concat_length:
  "i < length xss \<Longrightarrow> length (concat (removeAt i xss)) + length (xss ! i) = length (concat xss)"
proof -
  assume "i < length xss"
  then have "concat xss = concat (take i xss) @ (xss ! i) @ concat (drop (Suc i) xss)"
  proof -
    have "concat xss = concat (take i xss @ (xss ! i) # drop (Suc i) xss)"
      using id_take_nth_drop[OF \<open>i < length xss\<close>] by simp
    then show ?thesis by simp
  qed
  then show ?thesis by (simp add: removeAt_def)
qed

lemma removeAt_concat_set:
  "set (concat (removeAt i xss)) \<subseteq> set (concat xss)"
  using removeAt_set[of i xss] by auto

lemma fold_start_running:
  "\<not> stopAutoExecutionRef s \<Longrightarrow>
   fold (executeSingleTask_start now) calls s =
     s\<lparr>pendingTasks := pendingTasks s @ map (markerOf now) calls,
       awaiting := awaiting s @ calls\<rparr>"
  by (induction calls arbitrary: s) (simp_all add: executeSingleTask_start_def markerOf_def)

lemma fold_start_stopped:
  "stopAutoExecutionRef s \<Longrightarrow> 0 \<le> activeTaskCount s \<Longrightarrow>
   fold (executeSingleTask_start now) calls s =
     s\<lparr>activeTaskCount := max 0 (activeTaskCount s - int (length calls))\<rparr>"
proof (induction calls arbitrary: s)
  case Nil
  then show ?case by simp
next
  case (Cons c cs)
  have "stopAutoExecutionRef (decrementActive s)" "0 \<le> activeTaskCount (decrementActive s)"
    using Cons.prems by (simp_all add: decrementActive_def)
  from Cons.IH[OF this] Cons.prems show ?case
    by (simp add: executeSingleTask_start_def decrementActive_def max_def)
qed


text \<open>The follow-ups a fulfilled call hands to a timer: none when the stop flag is set.\<close>

definition spawned :: "(jsstring \<Rightarrow> jsstring) \<Rightarrow> TeamTasksProps \<Rightarrow> TaskInvocation \<Rightarrow> jsstring \<Rightarrow>
    state \<Rightarrow> TaskInvocation list" where
  "spawned toLowerCase props call responseText s =
     (if stopAutoExecutionRef s then []
      else followUpCalls (i_expert call) (i_depth call)
             (followUpTasks toLowerCase (team props) (i_expert call) (i_depth call) responseText))"

text \<open>The result a fulfilled call records.\<close>

definition recorded :: "TaskInvocation \<Rightarrow> jsstring \<Rightarrow> jsstring \<Rightarrow> nat \<Rightarrow> TaskResult" where
  "recorded call responseText rid now =
     \<lparr>r_id = rid, r_expertId = e_id (i_expert call), r_expertName = e_name (i_expert call),
      r_expertAvatar = e_avatar (i_expert call), r_taskDescription = i_instruction call,
      r_resultContent = stripDirectives responseText, r_timestamp = now,
      r_triggerBy = (case i_triggerBy call of None \<Rightarrow> None
                     | Some t \<Rightarrow> if t \<noteq> [] then Some t else None)\<rparr>"

lemma followUpCalls_length [simp]: "length (followUpCalls expert depth fs) = length fs"
  by (simp add: followUpCalls_def)

lemma followUpCalls_Nil [simp]: "followUpCalls expert depth fs = [] \<longleftrightarrow> fs = []"
  by (simp add: followUpCalls_def)

lemma followUpTasks_deep [simp]:
  "\<not> depth < MAX_DEPTH \<Longrightarrow> followUpTasks toLowerCase tm expert depth text = []"
  by (simp add: followUpTasks_def)

lemma fulfilled_eq:
  "executeSingleTask_fulfilled toLowerCase props call responseText rid now s =
     s\<lparr>taskResults := recorded call responseText rid now # taskResults s,
       pendingTasks := filter (\<lambda>p. p_expertId p \<noteq> e_id (i_expert call)) (pendingTasks s),
       timers := (if spawned toLowerCase props call responseText s = [] then timers s
                  else timers s @ [spawned toLowerCase props call responseText s]),
       activeTaskCount := max 0 (activeTaskCount s
                           + int (length (spawned toLowerCase props call responseText s)) - 1)\<rparr>"
proof -
  have r: "(case i_triggerBy call of
              None \<Rightarrow> runExpertTask_result (i_expert call) (i_instruction call) responseText rid now
            | Some t \<Rightarrow> if t \<noteq> []
                then runExpertTask_result (i_expert call) (i_instruction call) responseText rid now
                       \<lparr>r_triggerBy := Some t\<rparr>
                else runExpertTask_result (i_expert call) (i_instruction call) responseText rid now)
           \<lparr>r_resultContent := stripDirectives responseText\<rparr>
         = recorded call responseText rid now"
    by (simp add: recorded_def runExpertTask_result_def split: option.splits)
  have c: "r_resultContent (case i_triggerBy call of
              None \<Rightarrow> runExpertTask_result (i_expert call) (i_instruction call) responseText rid now
            | Some t \<Rightarrow> if t \<noteq> []
                then runExpertTask_result (i_expert call) (i_instruction call) responseText rid now
                       \<lparr>r_triggerBy := Some t\<rparr>
                else runExpertTask_result (i_expert call) (i_instruction call) responseText rid now)
         = responseText"
    by (simp add: runExpertTask_result_def split: option.splits)
  show ?thesis
    unfolding executeSingleTask_fulfilled_def Let_def c r
    by (cases "i_depth call < MAX_DEPTH") (simp_all add: decrementActive_def spawned_def)
qed

text \<open>The message the \<open>catch\<close> block puts on the markers.\<close>

definition errMessage :: "jsstring option \<Rightarrow> jsstring" where
  "errMessage message =
     (case message of None \<Rightarrow> unknownError | Some m \<Rightarrow> if m \<noteq> [] then m else unknownError)"

lemma rejected_eq:
  "executeSingleTask_rejected call message s =
     s\<lparr>pendingTasks :=
         map (\<lambda>p. if p_expertId p = e_id (i_expert call)
                  then p\<lparr>p_status := Error, p_errorMessage := Some (errMessage message)\<rparr>
                  else p) (pendingTasks s),
       activeTaskCount := max 0 (activeTaskCount s - 1)\<rparr>"
  by (simp add: executeSingleTask_rejected_def Let_def decrementActive_def errMessage_def)

lemma spawned_depth:
  "c \<in> set (spawned toLowerCase props call responseText s) \<Longrightarrow>
   i_depth c = i_depth call + 1 \<and> i_depth call < MAX_DEPTH \<and> i_triggerBy c = Some (e_name (i_expert call))"
  by (cases "i_depth call < MAX_DEPTH") (auto simp: spawned_def followUpCalls_def split: if_splits)


lemma initial_consistent: "consistent (initialState props)"
  by (simp add: consistent_def counted_def initialState_def)

lemma consistent_count:
  "consistent s \<Longrightarrow> activeTaskCount s = int (length (awaiting s)) + int (length (concat (timers s)))"
  by (simp add: consistent_def counted_def)

lemma fulfilled_consistent:
  assumes cs: "consistent s" and i: "i < length (awaiting s)"
  shows "consistent (executeSingleTask_fulfilled toLowerCase props (awaiting s ! i) responseText rid now
           (s\<lparr>awaiting := removeAt i (awaiting s)\<rparr>))"
proof -
  let ?call = "awaiting s ! i"
  let ?s0 = "s\<lparr>awaiting := removeAt i (awaiting s)\<rparr>"
  let ?sp = "spawned toLowerCase props ?call responseText ?s0"
  let ?s' = "executeSingleTask_fulfilled toLowerCase props ?call responseText rid now ?s0"
  have aw: "awaiting ?s' = removeAt i (awaiting s)"
    and tm: "timers ?s' = (if ?sp = [] then timers s else timers s @ [?sp])"
    and pt: "pendingTasks ?s' = filter (\<lambda>p. p_expertId p \<noteq> e_id (i_expert ?call)) (pendingTasks s)"
    and ct: "activeTaskCount ?s' = max 0 (activeTaskCount s + int (length ?sp) - 1)"
    by (simp_all add: fulfilled_eq)
  have len: "length (removeAt i (awaiting s)) + 1 = length (awaiting s)"
    by (rule removeAt_length[OF i])
  have "counted ?s'"
    unfolding counted_def aw tm ct using consistent_count[OF cs] len by auto
  moreover have "[] \<notin> set (timers ?s')"
    unfolding tm using cs by (auto simp: consistent_def)
  moreover have "\<forall>p \<in> set (pendingTasks ?s'). p_status p = Pending \<longrightarrow>
      (\<exists>c \<in> set (awaiting ?s'). e_id (i_expert c) = p_expertId p)"
  proof (intro ballI impI)
    fix p assume p: "p \<in> set (pendingTasks ?s')" and st: "p_status p = Pending"
    from p have "p \<in> set (pendingTasks s)" and ne: "p_expertId p \<noteq> e_id (i_expert ?call)"
      unfolding pt by auto
    with cs st obtain c where c: "c \<in> set (awaiting s)" "e_id (i_expert c) = p_expertId p"
      by (auto simp: consistent_def)
    with ne have "c \<noteq> ?call" by auto
    from removeAt_other[OF i c(1) this] c(2)
    show "\<exists>c \<in> set (awaiting ?s'). e_id (i_expert c) = p_expertId p"
      unfolding aw by blast
  qed
  moreover have "\<forall>c \<in> set (awaiting ?s') \<union> set (concat (timers ?s')). i_depth c \<le> MAX_DEPTH"
  proof
    fix c assume "c \<in> set (awaiting ?s') \<union> set (concat (timers ?s'))"
    then consider "c \<in> set (awaiting s)" | "c \<in> set (concat (timers s))" | "c \<in> set ?sp"
      unfolding aw tm using removeAt_set[of i "awaiting s"] by (auto split: if_splits)
    then show "i_depth c \<le> MAX_DEPTH"
    proof cases
      case 3
      from spawned_depth[OF this] show ?thesis by simp
    qed (use cs in \<open>auto simp: consistent_def\<close>)
  qed
  ultimately show ?thesis unfolding consistent_def by blast
qed

lemma rejected_consistent:
  assumes cs: "consistent s" and i: "i < length (awaiting s)"
  shows "consistent (executeSingleTask_rejected (awaiting s ! i) message
           (s\<lparr>awaiting := removeAt i (awaiting s)\<rparr>))"
proof -
  let ?call = "awaiting s ! i"
  let ?s' = "executeSingleTask_rejected ?call message (s\<lparr>awaiting := removeAt i (awaiting s)\<rparr>)"
  let ?mark = "\<lambda>p. if p_expertId p = e_id (i_expert ?call)
                  then p\<lparr>p_status := Error, p_errorMessage := Some (errMessage message)\<rparr> else p"
  have aw: "awaiting ?s' = removeAt i (awaiting s)"
    and tm: "timers ?s' = timers s"
    and pt: "pendingTasks ?s' = map ?mark (pendingTasks s)"
    and ct: "activeTaskCount ?s' = max 0 (activeTaskCount s - 1)"
    by (simp_all add: rejected_eq)
  have len: "length (removeAt i (awaiting s)) + 1 = length (awaiting s)"
    by (rule removeAt_length[OF i])
  have "counted ?s'"
    unfolding counted_def aw tm ct using consistent_count[OF cs] len by auto
  moreover have "[] \<notin> set (timers ?s')"
    unfolding tm using cs by (auto simp: consistent_def)
  moreover have "\<forall>p \<in> set (pendingTasks ?s'). p_status p = Pending \<longrightarrow>
      (\<exists>c \<in> set (awaiting ?s'). e_id (i_expert c) = p_expertId p)"
  proof (intro ballI impI)
    fix p assume p: "p \<in> set (pendingTasks ?s')" and st: "p_status p = Pending"
    from p obtain q where q: "q \<in> set (pendingTasks s)" "p = ?mark q"
      unfolding pt by auto
    with st have same: "p = q" and ne: "p_expertId q \<noteq> e_id (i_expert ?call)"
      by (auto split: if_splits)
    with cs st q obtain c where c: "c \<in> set (awaiting s)" "e_id (i_expert c) = p_expertId p"
      by (auto simp: consistent_def)
    with ne same have "c \<noteq> ?call" by auto
    from removeAt_other[OF i c(1) this] c(2)
    show "\<exists>c \<in> set (awaiting ?s'). e_id (i_expert c) = p_expertId p"
      unfolding aw by blast
  qed
  moreover have "\<forall>c \<in> set (awaiting ?s') \<union> set (concat (timers ?s')). i_depth c \<le> MAX_DEPTH"
    unfolding aw tm using cs removeAt_set[of i "awaiting s"] by (auto simp: consistent_def)
  ultimately show ?thesis unfolding consistent_def by blast
qed


lemma markerOf_fields [simp]:
  "p_expertId (markerOf now call) = e_id (i_expert call)"
  "p_status (markerOf now call) = Pending"
  "p_triggerBy (markerOf now call) = i_triggerBy call"
  by (simp_all add: markerOf_def)

lemma timer_consistent:
  assumes cs: "consistent s" and i: "i < length (timers s)"
  shows "consistent (fold (executeSingleTask_start now) (timers s ! i)
           (s\<lparr>timers := removeAt i (timers s)\<rparr>))"
proof -
  let ?calls = "timers s ! i"
  let ?s0 = "s\<lparr>timers := removeAt i (timers s)\<rparr>"
  let ?s' = "fold (executeSingleTask_start now) ?calls ?s0"
  have cnt: "activeTaskCount s = int (length (awaiting s)) + int (length (concat (timers s)))"
    by (rule consistent_count[OF cs])
  have len: "length (concat (removeAt i (timers s))) + length ?calls = length (concat (timers s))"
    by (rule removeAt_concat_length[OF i])
  have sub: "set ?calls \<subseteq> set (concat (timers s))"
    using i by (auto intro: nth_mem)
  have ne: "[] \<notin> set (removeAt i (timers s))"
    using cs removeAt_set[of i "timers s"] by (auto simp: consistent_def)
  have own: "\<forall>p \<in> set (pendingTasks s). p_status p = Pending \<longrightarrow>
        (\<exists>c \<in> set (awaiting s). e_id (i_expert c) = p_expertId p)"
    using cs by (simp add: consistent_def)
  have dep: "\<forall>c \<in> set (awaiting s) \<union> set (concat (timers s)). i_depth c \<le> MAX_DEPTH"
    using cs by (simp add: consistent_def)
  have dep': "\<forall>c \<in> set (awaiting s) \<union> set (concat (removeAt i (timers s))). i_depth c \<le> MAX_DEPTH"
    using dep removeAt_concat_set[of i "timers s"] by blast
  show ?thesis
  proof (cases "stopAutoExecutionRef s")
    case True
    then have eq: "?s' = ?s0\<lparr>activeTaskCount := max 0 (activeTaskCount s - int (length ?calls))\<rparr>"
      using cnt by (simp add: fold_start_stopped)
    have "counted ?s'"
      unfolding eq counted_def using cnt len by simp
    moreover have "[] \<notin> set (timers ?s')"
      unfolding eq using ne by simp
    moreover have "\<forall>p \<in> set (pendingTasks ?s'). p_status p = Pending \<longrightarrow>
        (\<exists>c \<in> set (awaiting ?s'). e_id (i_expert c) = p_expertId p)"
      unfolding eq using own by simp
    moreover have "\<forall>c \<in> set (awaiting ?s') \<union> set (concat (timers ?s')). i_depth c \<le> MAX_DEPTH"
      unfolding eq using dep' by (simp del: set_concat)
    ultimately show ?thesis unfolding consistent_def by blast
  next
    case False
    then have eq: "?s' = ?s0\<lparr>pendingTasks := pendingTasks s @ map (markerOf now) ?calls,
                               awaiting := awaiting s @ ?calls\<rparr>"
      by (simp add: fold_start_running)
    have "counted ?s'"
      unfolding eq counted_def using cnt len by simp
    moreover have "[] \<notin> set (timers ?s')"
      unfolding eq using ne by simp
    moreover have "\<forall>p \<in> set (pendingTasks ?s'). p_status p = Pending \<longrightarrow>
        (\<exists>c \<in> set (awaiting ?s'). e_id (i_expert c) = p_expertId p)"
      unfolding eq using own by auto
    moreover have "\<forall>c \<in> set (awaiting ?s') \<union> set (concat (timers ?s')). i_depth c \<le> MAX_DEPTH"
    proof
      fix c assume "c \<in> set (awaiting ?s') \<union> set (concat (timers ?s'))"
      then have "c \<in> set (awaiting s) \<union> set (concat (removeAt i (timers s))) \<or> c \<in> set ?calls"
        unfolding eq by (auto simp del: set_concat)
      with dep dep' sub show "i_depth c \<le> MAX_DEPTH" by blast
    qed
    ultimately show ?thesis unfolding consistent_def by blast
  qed
qed

text \<open>The calls a batch starts: one for each selected expert of the team.\<close>

definition rootCalls :: "TeamTasksProps \<Rightarrow> state \<Rightarrow> TaskInvocation list" where
  "rootCalls props s =
     map (\<lambda>expert. \<lparr>i_expert = expert, i_instruction = taskInput s,
                     i_triggerBy = None, i_depth = 0\<rparr>)
       (filter (\<lambda>e. e_id e \<in> selectedExpertIds s) (team props))"

definition validation :: "TeamTasksProps \<Rightarrow> state \<Rightarrow> alert option" where
  "validation props s =
     (if selectedExpertIds s = {} then Some NoExpertSelected
      else if trim (taskInput s) = [] then Some EmptyTask
      else if trim (projectDescription props) = [] then Some EmptyProject
      else None)"

lemma handleExecute_rejects:
  "validation props s = Some a \<Longrightarrow> handleExecuteBatchTasks props now s = Inl a"
  by (auto simp: validation_def handleExecuteBatchTasks_def split: if_splits)

lemma handleExecute_accepts:
  assumes "validation props s = None"
  shows "handleExecuteBatchTasks props now s =
     Inr (s\<lparr>stopAutoExecutionRef := False, terminationMessage := None,
            taskInput := [], showMentionList := False,
            activeTaskCount := int (length (rootCalls props s)),
            pendingTasks := pendingTasks s @ map (markerOf now) (rootCalls props s),
            awaiting := awaiting s @ rootCalls props s\<rparr>)"
proof -
  let ?root = "\<lambda>expert. \<lparr>i_expert = expert, i_instruction = taskInput s,
                     i_triggerBy = None, i_depth = 0\<rparr>"
  have f: "fold (\<lambda>expert. executeSingleTask_start now (?root expert)) xs t =
           fold (executeSingleTask_start now) (map ?root xs) t" for xs t
    by (simp add: fold_map comp_def)
  from assms have v: "selectedExpertIds s \<noteq> {}" "trim (taskInput s) \<noteq> []"
      "trim (projectDescription props) \<noteq> []"
    by (auto simp: validation_def split: if_splits)
  show ?thesis
    unfolding handleExecuteBatchTasks_def Let_def f
    using v by (simp add: fold_start_running rootCalls_def)
qed

lemma execute_consistent:
  assumes cs: "consistent s" and en: "\<not> executeDisabled s"
    and h: "handleExecuteBatchTasks props now s = Inr s'"
  shows "consistent s'"
proof -
  from en have z: "activeTaskCount s \<le> 0" by (simp add: executeDisabled_def isProcessing_def)
  with consistent_count[OF cs]
  have "length (awaiting s) = 0 \<and> length (concat (timers s)) = 0"
    by linarith
  then have aw: "awaiting s = []" and q: "concat (timers s) = []"
    by simp_all
  from q cs have tm: "timers s = []"
    by (cases "timers s") (auto simp: consistent_def)
  from h have "validation props s = None"
    by (cases "validation props s") (auto dest: handleExecute_rejects[where now = now])
  from handleExecute_accepts[OF this, of now] h
  have eq: "s' = s\<lparr>stopAutoExecutionRef := False, terminationMessage := None,
            taskInput := [], showMentionList := False,
            activeTaskCount := int (length (rootCalls props s)),
            pendingTasks := pendingTasks s @ map (markerOf now) (rootCalls props s),
            awaiting := awaiting s @ rootCalls props s\<rparr>"
    by simp
  have d: "\<forall>c \<in> set (rootCalls props s). i_depth c = 0"
    by (auto simp: rootCalls_def)
  have "counted s'" unfolding eq counted_def using aw tm by simp
  moreover have "[] \<notin> set (timers s')" unfolding eq using tm by simp
  moreover have "\<forall>p \<in> set (pendingTasks s'). p_status p = Pending \<longrightarrow>
        (\<exists>c \<in> set (awaiting s'). e_id (i_expert c) = p_expertId p)"
    unfolding eq using cs by (auto simp: consistent_def)
  moreover have "\<forall>c \<in> set (awaiting s') \<union> set (concat (timers s')). i_depth c \<le> MAX_DEPTH"
    unfolding eq using aw tm d by auto
  ultimately show ?thesis unfolding consistent_def by blast
qed

lemma applyEvent_consistent:
  assumes "consistent s" and "applyEvent toLowerCase props ev s = Some s'"
  shows "consistent s'"
proof (cases ev)
  case (ClickExecute now)
  with assms show ?thesis
    by (auto split: if_splits sum.splits dest: execute_consistent)
next
  case (Settle i outcome)
  with assms show ?thesis
    by (cases outcome)
       (auto simp: settle_def split: if_splits intro: fulfilled_consistent rejected_consistent)
next
  case (TimerFires i now)
  with assms show ?thesis
    by (auto split: if_splits intro: timer_consistent)
next
  case (ClearPending expertId)
  with assms show ?thesis
    by (auto simp: handleClearPending_def consistent_def counted_def)
next
  case (InputChange val)
  with assms show ?thesis
    by (auto simp: handleInputStringChange_def Let_def consistent_def counted_def split: if_splits)
next
  case (ToggleExpert eid)
  with assms show ?thesis
    by (auto simp: toggleExpertSelection_def consistent_def counted_def split: if_splits)
next
  case SelectAll
  with assms show ?thesis
    by (auto simp: selectAllExperts_def consistent_def counted_def split: if_splits)
next
  case (MentionSelect expert)
  with assms show ?thesis
    by (auto simp: handleMentionSelect_def consistent_def counted_def split: if_splits)
next
  case ClickStop
  with assms show ?thesis
    by (auto simp: handleStopExecution_def consistent_def counted_def split: if_splits)
next
  case DismissNotice
  with assms show ?thesis
    by (auto simp: consistent_def counted_def)
next
  case (DeleteResult rid)
  with assms show ?thesis
    by (auto simp: handleDeleteResult_def consistent_def counted_def)
next
  case ClearResults
  with assms show ?thesis
    by (auto simp: consistent_def counted_def)
qed

lemma run_consistent:
  "consistent s \<Longrightarrow> run toLowerCase props evs s = Some s' \<Longrightarrow> consistent s'"
  by (induction evs arbitrary: s) (auto split: option.splits dest: applyEvent_consistent)


section \<open>A team for the concrete runs\<close>

definition expertOf :: "string \<Rightarrow> string \<Rightarrow> Expert" where
  "expertOf i n = \<lparr>e_id = lit i, e_name = lit n, e_role = Custom, e_avatar = [],
                   e_description = [], e_isCustom = True\<rparr>"

definition alice :: Expert where
  "alice = expertOf ''1'' ''Alice''"

definition bob :: Expert where
  "bob = expertOf ''2'' ''Bob''"

definition demoProps :: TeamTasksProps where
  "demoProps = \<lparr>team = [alice, bob], projectDescription = lit ''plan''\<rparr>"

text \<open>
  Alice is selected and answers with one directive for Bob; the call of Bob, started by
  the timer, fails with the message 401.
\<close>

definition delegatingRun :: "event list" where
  "delegatingRun =
     [InputChange (lit ''review''), ClickExecute 5,
      Settle 0 (Fulfilled (lit ''ok:::DELEGATE:::bob:::check:::'') (lit ''r1'') 7),
      TimerFires 0 9,
      Settle 0 (Rejected (Some (lit ''401'')))]"

definition delegatingFinal :: state where
  "delegatingFinal =
     \<lparr>taskInput = [], showMentionList = False, selectedExpertIds = {lit ''1''},
      taskResults =
        [\<lparr>r_id = lit ''r1'', r_expertId = lit ''1'', r_expertName = lit ''Alice'',
          r_expertAvatar = [], r_taskDescription = lit ''review'',
          r_resultContent = lit ''ok'', r_timestamp = 7, r_triggerBy = None\<rparr>],
      pendingTasks =
        [\<lparr>p_id = lit ''pending_9_2'', p_expertId = lit ''2'', p_expertName = lit ''Bob'',
          p_expertAvatar = [], p_status = Error, p_errorMessage = Some (lit ''401''),
          p_triggerBy = Some (lit ''Alice'')\<rparr>],
      activeTaskCount = 0, terminationMessage = None, stopAutoExecutionRef = False,
      awaiting = [], timers = []\<rparr>"

text \<open>The equations that evaluate a concrete run.\<close>

lemmas eval_defs =
  demoProps_def alice_def bob_def expertOf_def lit_def initialState_def
  handleInputStringChange_def executeDisabled_def isProcessing_def trim_def
  isWhiteSpace_def isLineTerminator_def handleExecuteBatchTasks_def
  executeSingleTask_start_def pendingId_def settle_def removeAt_def
  fulfilled_eq rejected_eq spawned_def recorded_def followUpTasks_def followUpCalls_def
  MAX_DEPTH_def execAll.simps stripDirectives.simps matchAt_def afterTarget_def
  sentinel_def separator_def findTarget_def asciiLower_def errMessage_def
  decrementActive_def handleStopExecution_def handleClearPending_def showNat.simps

lemma delegatingRun_result:
  "run asciiLower demoProps delegatingRun (initialState demoProps) = Some delegatingFinal"
  by (simp add: delegatingRun_def delegatingFinal_def eval_defs)

section \<open>The active task counter\<close>

text \<open>
  Claim C4. In every state the component can reach from its initial state, whatever the
  order in which calls settle and timers fire, the active task counter is not negative
  and equals the number of calls that are suspended or wait in a timer; so it is 0 once
  every task of the user and every follow-up has settled or was abandoned, and when it
  is 0 no pending marker has the status pending.
\<close>

theorem active_counter_invariant:
  assumes "run toLowerCase props evs (initialState props) = Some s"
  shows "0 \<le> activeTaskCount s
       \<and> activeTaskCount s = int (length (awaiting s) + length (concat (timers s)))
       \<and> (awaiting s = [] \<and> timers s = [] \<longrightarrow> activeTaskCount s = 0)
       \<and> (activeTaskCount s = 0 \<longrightarrow> (\<forall>p \<in> set (pendingTasks s). p_status p \<noteq> Pending))"
proof -
  have cs: "consistent s"
    by (rule run_consistent[OF initial_consistent assms])
  then have cnt: "activeTaskCount s = int (length (awaiting s) + length (concat (timers s)))"
    by (simp add: consistent_count)
  have "\<forall>p \<in> set (pendingTasks s). p_status p \<noteq> Pending" if z: "activeTaskCount s = 0"
  proof
    fix p assume p: "p \<in> set (pendingTasks s)"
    from z cnt have "length (awaiting s) = 0" by linarith
    then have "awaiting s = []" by simp
    with cs p show "p_status p \<noteq> Pending" by (auto simp: consistent_def)
  qed
  with cnt show ?thesis by simp
qed

theorem active_counter_invariant_witness:
  "run asciiLower demoProps delegatingRun (initialState demoProps) = Some delegatingFinal
   \<and> activeTaskCount delegatingFinal = 0
   \<and> map p_status (pendingTasks delegatingFinal) = [Error]"
  using active_counter_invariant[OF delegatingRun_result] delegatingRun_result
  by (simp add: delegatingFinal_def)

section \<open>The bound on the depth of delegation\<close>

text \<open>
  A step of the delegation itself: a suspended call settles, with any outcome and any
  text of the model, or a timer runs its follow-up calls.
\<close>

definition taskStep :: "(jsstring \<Rightarrow> jsstring) \<Rightarrow> TeamTasksProps \<Rightarrow> state \<Rightarrow> state \<Rightarrow> bool" where
  "taskStep toLowerCase props s s' =
     ((\<exists>i outcome. applyEvent toLowerCase props (Settle i outcome) s = Some s') \<or>
      (\<exists>i now. applyEvent toLowerCase props (TimerFires i now) s = Some s'))"

text \<open>The calls, suspended or waiting, that may still delegate through \<open>r\<close> levels.\<close>

definition levelCount :: "nat \<Rightarrow> state \<Rightarrow> nat" where
  "levelCount r s =
     length (filter (\<lambda>c. MAX_DEPTH - i_depth c = r) (awaiting s @ concat (timers s)))"

lemma removeAt_filter_length:
  assumes "i < length xs"
  shows "length (filter P xs) = length (filter P (removeAt i xs)) + (if P (xs ! i) then 1 else 0)"
proof -
  have "filter P xs = filter P (take i xs @ (xs ! i) # drop (Suc i) xs)"
    using id_take_nth_drop[OF assms] by simp
  then show ?thesis by (simp add: removeAt_def)
qed

lemma removeAt_concat_filter_length:
  assumes "i < length xss"
  shows "length (filter P (concat xss)) =
         length (filter P (concat (removeAt i xss))) + length (filter P (xss ! i))"
proof -
  have "concat xss = concat (take i xss @ (xss ! i) # drop (Suc i) xss)"
    using id_take_nth_drop[OF assms] by simp
  then show ?thesis by (simp add: removeAt_def)
qed

lemma spawned_level:
  assumes "MAX_DEPTH - i_depth call \<le> r"
  shows "filter (\<lambda>c. MAX_DEPTH - i_depth c = r) (spawned toLowerCase props call responseText s) = []"
proof -
  have "MAX_DEPTH - i_depth c \<noteq> r"
    if "c \<in> set (spawned toLowerCase props call responseText s)" for c
    using spawned_depth[OF that] assms by arith
  then show ?thesis by (simp add: filter_empty_conv)
qed

lemma lex_decrease:
  fixes f2 f1 f0 g :: "state \<Rightarrow> nat" and r :: nat
  assumes "r \<le> 2"
    and "r \<le> 2 \<Longrightarrow> f2 s' + (if r = 2 then 1 else 0) = f2 s"
    and "r \<le> 1 \<Longrightarrow> f1 s' + (if r = 1 then 1 else 0) = f1 s"
    and "r \<le> 0 \<Longrightarrow> f0 s' + (if r = 0 then 1 else 0) = f0 s"
  shows "(s', s) \<in> measures [f2, f1, f0, g]"
proof -
  from assms(1) consider "r = 0" | "r = 1" | "r = 2" by linarith
  then show ?thesis using assms(2-4) by cases auto
qed

lemma settle_decreases:
  assumes i: "i < length (awaiting s)"
  shows "(settle toLowerCase props (awaiting s ! i) outcome (s\<lparr>awaiting := removeAt i (awaiting s)\<rparr>), s)
         \<in> measures [levelCount 2, levelCount 1, levelCount 0, \<lambda>s. length (timers s)]"
proof -
  let ?call = "awaiting s ! i"
  let ?lvl = "MAX_DEPTH - i_depth ?call"
  let ?s0 = "s\<lparr>awaiting := removeAt i (awaiting s)\<rparr>"
  let ?s' = "settle toLowerCase props ?call outcome ?s0"
  have aw: "awaiting ?s' = removeAt i (awaiting s)"
    by (cases outcome) (simp_all add: settle_def fulfilled_eq rejected_eq)
  have "\<exists>sp. timers ?s' = (if sp = [] then timers s else timers s @ [sp]) \<and>
          (\<forall>k. ?lvl \<le> k \<longrightarrow> filter (\<lambda>c. MAX_DEPTH - i_depth c = k) sp = [])"
  proof (cases outcome)
    case (Fulfilled resp rid now)
    have "timers ?s' = (if spawned toLowerCase props ?call resp ?s0 = [] then timers s
                        else timers s @ [spawned toLowerCase props ?call resp ?s0])"
      by (simp add: Fulfilled settle_def fulfilled_eq)
    moreover have "\<forall>k. ?lvl \<le> k \<longrightarrow>
        filter (\<lambda>c. MAX_DEPTH - i_depth c = k) (spawned toLowerCase props ?call resp ?s0) = []"
      by (simp add: spawned_level)
    ultimately show ?thesis by blast
  next
    case (Rejected message)
    have "timers ?s' = (if [] = ([] :: TaskInvocation list) then timers s else timers s @ [[]])"
      by (simp add: Rejected settle_def rejected_eq)
    then show ?thesis by (intro exI[of _ "[]"]) simp
  qed
  then obtain sp where tm: "timers ?s' = (if sp = [] then timers s else timers s @ [sp])"
    and sp: "\<forall>k. ?lvl \<le> k \<longrightarrow> filter (\<lambda>c. MAX_DEPTH - i_depth c = k) sp = []"
    by blast
  have lc: "levelCount k ?s' + (if ?lvl = k then 1 else 0) = levelCount k s" if "?lvl \<le> k" for k
    unfolding levelCount_def aw tm
    using removeAt_filter_length[OF i, of "\<lambda>c. MAX_DEPTH - i_depth c = k"] sp that
    by (simp split: if_splits)
  have r2: "?lvl \<le> 2" by (simp add: MAX_DEPTH_def)
  show ?thesis
    by (rule lex_decrease[OF r2]) (use lc in blast)+
qed

lemma timer_decreases:
  assumes i: "i < length (timers s)"
  shows "(fold (executeSingleTask_start now) (timers s ! i) (s\<lparr>timers := removeAt i (timers s)\<rparr>), s)
         \<in> measures [levelCount 2, levelCount 1, levelCount 0, \<lambda>s. length (timers s)]"
proof -
  let ?calls = "timers s ! i"
  let ?s0 = "s\<lparr>timers := removeAt i (timers s)\<rparr>"
  let ?s' = "fold (executeSingleTask_start now) ?calls ?s0"
  have tm: "timers ?s' = removeAt i (timers s)"
    and aw: "awaiting ?s' = (if stopAutoExecutionRef s then awaiting s else awaiting s @ ?calls)"
  proof -
    have st: "stopAutoExecutionRef t \<Longrightarrow> awaiting (fold (executeSingleTask_start now) cs t) = awaiting t
        \<and> timers (fold (executeSingleTask_start now) cs t) = timers t" for cs t
      by (induction cs arbitrary: t) (simp_all add: executeSingleTask_start_def decrementActive_def)
    show "timers ?s' = removeAt i (timers s)"
      by (cases "stopAutoExecutionRef s") (simp_all add: fold_start_running st)
    show "awaiting ?s' = (if stopAutoExecutionRef s then awaiting s else awaiting s @ ?calls)"
      by (cases "stopAutoExecutionRef s") (simp_all add: fold_start_running st)
  qed
  have le: "levelCount r ?s' \<le> levelCount r s" for r
    unfolding levelCount_def aw tm
    using removeAt_concat_filter_length[OF i, of "\<lambda>c. MAX_DEPTH - i_depth c = r"]
    by simp
  have lt: "length (timers ?s') < length (timers s)"
    unfolding tm using removeAt_length[OF i] by simp
  from le[of 2] le[of 1] le[of 0] lt show ?thesis by auto
qed

lemma taskStep_decreases:
  assumes "taskStep toLowerCase props s s'"
  shows "(s', s) \<in> measures [levelCount 2, levelCount 1, levelCount 0, \<lambda>s. length (timers s)]"
proof -
  from assms consider
      (settles) i outcome where "applyEvent toLowerCase props (Settle i outcome) s = Some s'"
    | (fires) i now where "applyEvent toLowerCase props (TimerFires i now) s = Some s'"
    unfolding taskStep_def by blast
  then show ?thesis
  proof cases
    case settles
    then have "i < length (awaiting s)"
      and "s' = settle toLowerCase props (awaiting s ! i) outcome (s\<lparr>awaiting := removeAt i (awaiting s)\<rparr>)"
      by (simp_all split: if_splits)
    then show ?thesis using settle_decreases by blast
  next
    case fires
    then have "i < length (timers s)"
      and "s' = fold (executeSingleTask_start now) (timers s ! i) (s\<lparr>timers := removeAt i (timers s)\<rparr>)"
      by (simp_all split: if_splits)
    then show ?thesis using timer_decreases by blast
  qed
qed

lemma taskStep_wf: "wf {(s', s). taskStep toLowerCase props s s'}"
  by (rule wf_subset[OF wf_measures]) (auto dest: taskStep_decreases)


text \<open>
  Alice answers with a directive for Bob, Bob (depth 1) with one for Alice, and the timer
  starts Alice at depth 2.
\<close>

definition deepRun :: "event list" where
  "deepRun =
     [InputChange (lit ''go''), ClickExecute 1,
      Settle 0 (Fulfilled (lit '':::DELEGATE:::bob:::b1:::'') (lit ''r1'') 2),
      TimerFires 0 3,
      Settle 0 (Fulfilled (lit '':::DELEGATE:::alice:::a2:::'') (lit ''r2'') 4),
      TimerFires 0 5]"

definition deepCall :: TaskInvocation where
  "deepCall = \<lparr>i_expert = alice, i_instruction = lit ''a2'',
                i_triggerBy = Some (lit ''Bob''), i_depth = 2\<rparr>"

lemma deepRun_awaiting:
  "\<exists>s. run asciiLower demoProps deepRun (initialState demoProps) = Some s \<and>
        awaiting s = [deepCall] \<and> timers s = [] \<and> \<not> stopAutoExecutionRef s"
  by (simp add: deepRun_def deepCall_def eval_defs)

text \<open>
  Claim C1. In every state reachable from the initial state, no call that is suspended
  in the adapter or waits in a timer has a depth above 2. The follow-up calls made from
  an answer at depth \<open>d\<close> have depth \<open>d + 1\<close> and exist only when \<open>d < 2\<close>; an answer
  at depth 2 or more yields none, whatever its text. The delegation terminates: there
  is no infinite sequence of settlements and timer runs, whatever the model answers.
\<close>

theorem delegation_depth_bounded:
  "(\<forall>s. run toLowerCase props evs (initialState props) = Some s \<longrightarrow>
        (\<forall>c \<in> set (awaiting s) \<union> set (concat (timers s)). i_depth c \<le> 2))
   \<and> (\<forall>c \<in> set (followUpCalls expert d (followUpTasks toLowerCase tm expert d resp)).
        i_depth c = d + 1 \<and> d < 2)
   \<and> (2 \<le> d \<longrightarrow> followUpTasks toLowerCase tm expert d resp = [])
   \<and> wf {(s', s). taskStep toLowerCase props s s'}"
proof (intro conjI allI impI)
  fix s assume "run toLowerCase props evs (initialState props) = Some s"
  then have "consistent s"
    by (rule run_consistent[OF initial_consistent])
  then show "\<forall>c \<in> set (awaiting s) \<union> set (concat (timers s)). i_depth c \<le> 2"
    by (simp add: consistent_def MAX_DEPTH_def)
next
  show "\<forall>c \<in> set (followUpCalls expert d (followUpTasks toLowerCase tm expert d resp)).
          i_depth c = d + 1 \<and> d < 2"
    by (cases "d < MAX_DEPTH") (auto simp: followUpCalls_def MAX_DEPTH_def)
next
  assume "2 \<le> d"
  then show "followUpTasks toLowerCase tm expert d resp = []"
    by (simp add: followUpTasks_def MAX_DEPTH_def)
next
  show "wf {(s', s). taskStep toLowerCase props s s'}"
    by (rule taskStep_wf)
qed

theorem delegation_depth_bounded_witness:
  "map_option awaiting (run asciiLower demoProps deepRun (initialState demoProps)) = Some [deepCall]
   \<and> i_depth deepCall = 2
   \<and> followUpTasks asciiLower [alice, bob] alice 2 (lit '':::DELEGATE:::bob:::b3:::'') = []"
proof -
  from deepRun_awaiting obtain s
    where r: "run asciiLower demoProps deepRun (initialState demoProps) = Some s"
      and a: "awaiting s = [deepCall]"
    by blast
  from delegation_depth_bounded[of asciiLower demoProps deepRun alice 2 "[alice, bob]"
      "lit '':::DELEGATE:::bob:::b3:::''"] r a
  show ?thesis by (simp add: deepCall_def)
qed

section \<open>Cancellation\<close>

lemma run_append:
  "run toLowerCase props (evs @ evs') s =
     (case run toLowerCase props evs s of None \<Rightarrow> None | Some t \<Rightarrow> run toLowerCase props evs' t)"
  by (induction evs arbitrary: s) (simp_all split: option.splits)


lemma fold_start_stopped_fields:
  "stopAutoExecutionRef s \<Longrightarrow>
   awaiting (fold (executeSingleTask_start now) calls s) = awaiting s \<and>
   timers (fold (executeSingleTask_start now) calls s) = timers s \<and>
   pendingTasks (fold (executeSingleTask_start now) calls s) = pendingTasks s \<and>
   taskResults (fold (executeSingleTask_start now) calls s) = taskResults s \<and>
   stopAutoExecutionRef (fold (executeSingleTask_start now) calls s)"
  by (induction calls arbitrary: s) (simp_all add: executeSingleTask_start_def decrementActive_def)










section \<open>The dispatch of a batch\<close>

text \<open>
  Claim C6. \<open>handleExecuteBatchTasks\<close> with no expert selected, a blank task text or a
  blank project description shows the alert of the first check that fails and returns; no
  state is written, and the click leaves the component as it was. Otherwise it clears the
  cancellation flag, sets the active counter to the number of selected experts of the team
  and starts, for each of them in the order of the team, one call at depth 0 with no
  trigger and the task text as instruction: each call appends its pending marker and is
  suspended in the adapter; results and timers are untouched.
\<close>

theorem dispatch_validates_then_starts:
  "(selectedExpertIds s = {} \<longrightarrow> handleExecuteBatchTasks props now s = Inl NoExpertSelected)
   \<and> (selectedExpertIds s \<noteq> {} \<and> trim (taskInput s) = [] \<longrightarrow>
        handleExecuteBatchTasks props now s = Inl EmptyTask)
   \<and> (selectedExpertIds s \<noteq> {} \<and> trim (taskInput s) \<noteq> [] \<and> trim (projectDescription props) = [] \<longrightarrow>
        handleExecuteBatchTasks props now s = Inl EmptyProject)
   \<and> (\<forall>a s'. handleExecuteBatchTasks props now s = Inl a \<and>
          applyEvent toLowerCase props (ClickExecute now) s = Some s' \<longrightarrow> s' = s)
   \<and> (selectedExpertIds s \<noteq> {} \<and> trim (taskInput s) \<noteq> [] \<and> trim (projectDescription props) \<noteq> [] \<longrightarrow>
        (\<exists>s'. handleExecuteBatchTasks props now s = Inr s'
          \<and> \<not> stopAutoExecutionRef s'
          \<and> activeTaskCount s' =
              int (length (filter (\<lambda>e. e_id e \<in> selectedExpertIds s) (team props)))
          \<and> awaiting s' = awaiting s @ rootCalls props s
          \<and> map i_expert (rootCalls props s) =
              filter (\<lambda>e. e_id e \<in> selectedExpertIds s) (team props)
          \<and> (\<forall>c \<in> set (rootCalls props s).
                i_depth c = 0 \<and> i_triggerBy c = None \<and> i_instruction c = taskInput s)
          \<and> pendingTasks s' = pendingTasks s @ map (markerOf now) (rootCalls props s)
          \<and> taskResults s' = taskResults s \<and> timers s' = timers s))"
proof (intro conjI allI impI)
  show "handleExecuteBatchTasks props now s = Inl NoExpertSelected" if "selectedExpertIds s = {}"
    using that by (simp add: handleExecuteBatchTasks_def)
  show "handleExecuteBatchTasks props now s = Inl EmptyTask"
    if "selectedExpertIds s \<noteq> {} \<and> trim (taskInput s) = []"
    using that by (simp add: handleExecuteBatchTasks_def)
  show "handleExecuteBatchTasks props now s = Inl EmptyProject"
    if "selectedExpertIds s \<noteq> {} \<and> trim (taskInput s) \<noteq> [] \<and> trim (projectDescription props) = []"
    using that by (simp add: handleExecuteBatchTasks_def)
  show "s' = s"
    if "handleExecuteBatchTasks props now s = Inl a \<and>
        applyEvent toLowerCase props (ClickExecute now) s = Some s'" for a s'
    using that by (auto split: if_splits)
  show "\<exists>s'. handleExecuteBatchTasks props now s = Inr s'
          \<and> \<not> stopAutoExecutionRef s'
          \<and> activeTaskCount s' =
              int (length (filter (\<lambda>e. e_id e \<in> selectedExpertIds s) (team props)))
          \<and> awaiting s' = awaiting s @ rootCalls props s
          \<and> map i_expert (rootCalls props s) =
              filter (\<lambda>e. e_id e \<in> selectedExpertIds s) (team props)
          \<and> (\<forall>c \<in> set (rootCalls props s).
                i_depth c = 0 \<and> i_triggerBy c = None \<and> i_instruction c = taskInput s)
          \<and> pendingTasks s' = pendingTasks s @ map (markerOf now) (rootCalls props s)
          \<and> taskResults s' = taskResults s \<and> timers s' = timers s"
    if ok: "selectedExpertIds s \<noteq> {} \<and> trim (taskInput s) \<noteq> [] \<and> trim (projectDescription props) \<noteq> []"
  proof -
    from ok have "validation props s = None" by (simp add: validation_def)
    from handleExecute_accepts[OF this, of now]
    have h: "handleExecuteBatchTasks props now s =
       Inr (s\<lparr>stopAutoExecutionRef := False, terminationMessage := None,
              taskInput := [], showMentionList := False,
              activeTaskCount := int (length (rootCalls props s)),
              pendingTasks := pendingTasks s @ map (markerOf now) (rootCalls props s),
              awaiting := awaiting s @ rootCalls props s\<rparr>)" .
    have m: "map i_expert (rootCalls props s) = filter (\<lambda>e. e_id e \<in> selectedExpertIds s) (team props)"
      by (simp add: rootCalls_def comp_def)
    have l: "length (rootCalls props s) = length (filter (\<lambda>e. e_id e \<in> selectedExpertIds s) (team props))"
      by (simp add: rootCalls_def)
    have f: "\<forall>c \<in> set (rootCalls props s).
                i_depth c = 0 \<and> i_triggerBy c = None \<and> i_instruction c = taskInput s"
      by (auto simp: rootCalls_def)
    show ?thesis unfolding h using m l f by simp
  qed
qed

theorem dispatch_validates_then_starts_witness:
  "handleExecuteBatchTasks demoProps 5 (initialState demoProps) = Inl EmptyTask
   \<and> map_sum id activeTaskCount
        (handleExecuteBatchTasks demoProps 5
           (handleInputStringChange (lit ''go'') (initialState demoProps))) = Inr 1
   \<and> map_sum id awaiting
        (handleExecuteBatchTasks demoProps 5
           (handleInputStringChange (lit ''go'') (initialState demoProps))) =
      Inr [\<lparr>i_expert = alice, i_instruction = lit ''go'', i_triggerBy = None, i_depth = 0\<rparr>]"
proof -
  let ?s = "handleInputStringChange (lit ''go'') (initialState demoProps)"
  have a: "selectedExpertIds (initialState demoProps) \<noteq> {} \<and> trim (taskInput (initialState demoProps)) = []"
    by (simp add: eval_defs)
  have b: "selectedExpertIds ?s \<noteq> {} \<and> trim (taskInput ?s) \<noteq> [] \<and> trim (projectDescription demoProps) \<noteq> []"
    by (simp add: eval_defs)
  have c: "filter (\<lambda>e. e_id e \<in> selectedExpertIds ?s) (team demoProps) = [alice]"
    by (simp add: eval_defs)
  have d: "rootCalls demoProps ?s =
           [\<lparr>i_expert = alice, i_instruction = lit ''go'', i_triggerBy = None, i_depth = 0\<rparr>]"
    by (simp add: rootCalls_def eval_defs)
  have e: "awaiting ?s = []"
    by (simp add: eval_defs)
  from dispatch_validates_then_starts[of "initialState demoProps" demoProps 5 asciiLower] a
  have 1: "handleExecuteBatchTasks demoProps 5 (initialState demoProps) = Inl EmptyTask"
    by blast
  from dispatch_validates_then_starts[of ?s demoProps 5 asciiLower] b
  obtain s' where "handleExecuteBatchTasks demoProps 5 ?s = Inr s'"
    and "activeTaskCount s' = int (length (filter (\<lambda>e. e_id e \<in> selectedExpertIds ?s) (team demoProps)))"
    and "awaiting s' = awaiting ?s @ rootCalls demoProps ?s"
    by blast
  with 1 c d e show ?thesis by simp
qed

section \<open>The pending markers\<close>

text \<open>What the \<open>catch\<close> block does to a marker of the expert whose call failed.\<close>

definition markError :: "Expert \<Rightarrow> jsstring option \<Rightarrow> PendingTask \<Rightarrow> PendingTask" where
  "markError expert message p =
     (if p_expertId p = e_id expert
      then p\<lparr>p_status := Error, p_errorMessage := Some (errMessage message)\<rparr>
      else p)"

lemma markError_fields [simp]:
  "p_id (markError expert message p) = p_id p"
  "p_expertId (markError expert message p) = p_expertId p"
  "p_status p = Error \<Longrightarrow> p_status (markError expert message p) = Error"
  by (simp_all add: markError_def)

lemma settle_fulfilled_state:
  assumes "i < length (awaiting s)"
  shows "applyEvent toLowerCase props (Settle i (Fulfilled resp rid t)) s =
     Some (s\<lparr>awaiting := removeAt i (awaiting s),
             taskResults := recorded (awaiting s ! i) resp rid t # taskResults s,
             pendingTasks := filter (\<lambda>p. p_expertId p \<noteq> e_id (i_expert (awaiting s ! i))) (pendingTasks s),
             timers := (if spawned toLowerCase props (awaiting s ! i) resp s = [] then timers s
                        else timers s @ [spawned toLowerCase props (awaiting s ! i) resp s]),
             activeTaskCount := max 0 (activeTaskCount s
                 + int (length (spawned toLowerCase props (awaiting s ! i) resp s)) - 1)\<rparr>)"
  using assms by (simp add: settle_def fulfilled_eq spawned_def)

lemma settle_rejected_state:
  assumes "i < length (awaiting s)"
  shows "applyEvent toLowerCase props (Settle i (Rejected message)) s =
     Some (s\<lparr>awaiting := removeAt i (awaiting s),
             pendingTasks := map (markError (i_expert (awaiting s ! i)) message) (pendingTasks s),
             activeTaskCount := max 0 (activeTaskCount s - 1)\<rparr>)"
  using assms by (simp add: settle_def rejected_eq markError_def[abs_def])

lemma fold_start_keeps_markers:
  "set (pendingTasks s) \<subseteq> set (pendingTasks (fold (executeSingleTask_start now) calls s))"
proof (induction calls arbitrary: s)
  case Nil
  then show ?case by simp
next
  case (Cons c cs)
  have "set (pendingTasks s) \<subseteq> set (pendingTasks (executeSingleTask_start now c s))"
    by (auto simp: executeSingleTask_start_def decrementActive_def)
  with Cons.IH[of "executeSingleTask_start now c s"] show ?case by auto
qed

text \<open>Two calls of Bob run at the same time, both delegated by one answer of Alice.\<close>

definition duplicateRun :: "event list" where
  "duplicateRun =
     [InputChange (lit ''go''), ClickExecute 1,
      Settle 0 (Fulfilled (lit '':::DELEGATE:::bob:::b1::::::DELEGATE:::bob:::b2:::'') (lit ''r1'') 2),
      TimerFires 0 3]"

definition bobCall :: "string \<Rightarrow> TaskInvocation" where
  "bobCall instr = \<lparr>i_expert = bob, i_instruction = lit instr,
                     i_triggerBy = Some (lit ''Alice''), i_depth = 1\<rparr>"

definition bobMarker :: PendingTask where
  "bobMarker = \<lparr>p_id = lit ''pending_3_2'', p_expertId = lit ''2'', p_expertName = lit ''Bob'',
       p_expertAvatar = [], p_status = Pending, p_errorMessage = None,
       p_triggerBy = Some (lit ''Alice'')\<rparr>"

lemma duplicateRun_state:
  "\<exists>s. run asciiLower demoProps duplicateRun (initialState demoProps) = Some s \<and>
        awaiting s = [bobCall ''b1'', bobCall ''b2''] \<and>
        pendingTasks s = [bobMarker, bobMarker] \<and> activeTaskCount s = 2 \<and>
        length (taskResults s) = 1 \<and> timers s = []"
  by (simp add: duplicateRun_def bobCall_def bobMarker_def eval_defs)

text \<open>
  Claim C10. When a call settles, the markers are chosen by the identifier of the expert,
  not by the identifier of the marker. A fulfilled call removes every marker of its
  expert, whatever its status and whichever call created it, and keeps all others as they
  are. A rejected call gives every marker of its expert the status error and the message
  of the failure, and keeps all others as they are.
\<close>

theorem markers_keyed_by_expert:
  assumes "i < length (awaiting s)"
  shows "(\<exists>s'. applyEvent toLowerCase props (Settle i (Fulfilled resp rid t)) s = Some s'
           \<and> pendingTasks s' =
               filter (\<lambda>p. p_expertId p \<noteq> e_id (i_expert (awaiting s ! i))) (pendingTasks s)
           \<and> (\<forall>p \<in> set (pendingTasks s).
                 p \<in> set (pendingTasks s') \<longleftrightarrow> p_expertId p \<noteq> e_id (i_expert (awaiting s ! i))))
       \<and> (\<exists>s'. applyEvent toLowerCase props (Settle i (Rejected message)) s = Some s'
           \<and> pendingTasks s' =
               map (\<lambda>p. if p_expertId p = e_id (i_expert (awaiting s ! i))
                        then p\<lparr>p_status := Error, p_errorMessage := Some (errMessage message)\<rparr>
                        else p) (pendingTasks s)
           \<and> (\<forall>p \<in> set (pendingTasks s').
                 p_expertId p = e_id (i_expert (awaiting s ! i)) \<longrightarrow>
                 p_status p = Error \<and> p_errorMessage p = Some (errMessage message)))"
  using assms
  by (auto simp del: applyEvent.simps
        simp add: settle_fulfilled_state settle_rejected_state markError_def[abs_def])

theorem markers_keyed_by_expert_witness:
  "map_option pendingTasks
     (run asciiLower demoProps duplicateRun (initialState demoProps)) = Some [bobMarker, bobMarker]
   \<and> map_option pendingTasks
     (run asciiLower demoProps (duplicateRun @ [Settle 0 (Fulfilled (lit ''done'') (lit ''r2'') 4)])
        (initialState demoProps)) = Some []"
proof -
  from duplicateRun_state obtain s
    where r: "run asciiLower demoProps duplicateRun (initialState demoProps) = Some s"
      and a: "awaiting s = [bobCall ''b1'', bobCall ''b2'']"
      and p: "pendingTasks s = [bobMarker, bobMarker]"
    by blast
  from a have i: "0 < length (awaiting s)" by simp
  from markers_keyed_by_expert[OF i, of asciiLower demoProps "lit ''done''" "lit ''r2''" 4]
  obtain s' where "applyEvent asciiLower demoProps (Settle 0 (Fulfilled (lit ''done'') (lit ''r2'') 4)) s = Some s'"
    and "pendingTasks s' = filter (\<lambda>p. p_expertId p \<noteq> e_id (i_expert (awaiting s ! 0))) (pendingTasks s)"
    by blast
  with r a p show ?thesis
    by (simp add: run_append bobCall_def bobMarker_def bob_def expertOf_def)
qed


text \<open>
  Claim C7, as the specification states it, fails. Two calls of Bob are suspended; the
  first is fulfilled and removes the markers of both; the second then fails with the
  message 401, and no marker is left to carry the error.
\<close>

theorem failure_marker_counterexample:
  "map_option awaiting
     (run asciiLower demoProps (duplicateRun @ [Settle 0 (Fulfilled (lit ''done'') (lit ''r2'') 4)])
        (initialState demoProps)) = Some [bobCall ''b2'']
   \<and> map_option pendingTasks
     (run asciiLower demoProps
        (duplicateRun @ [Settle 0 (Fulfilled (lit ''done'') (lit ''r2'') 4),
                         Settle 0 (Rejected (Some (lit ''401'')))])
        (initialState demoProps)) = Some []"
  by (simp add: duplicateRun_def bobCall_def eval_defs)

lemma delegating_before_failure:
  "\<exists>s. run asciiLower demoProps (butlast delegatingRun) (initialState demoProps) = Some s \<and>
        length (awaiting s) = 1 \<and> activeTaskCount s = 1 \<and>
        map p_expertId (pendingTasks s) = [e_id (i_expert (awaiting s ! 0))]"
  by (simp add: delegatingRun_def eval_defs)

text \<open>
  The events that take the markers of an expert away: the user clears them, or a call of
  that expert is fulfilled.
\<close>

fun removesMarkersOf :: "jsstring \<Rightarrow> event \<Rightarrow> state \<Rightarrow> bool" where
  "removesMarkersOf expertId (ClearPending x) s = (x = expertId)"
| "removesMarkersOf expertId (Settle i (Fulfilled responseText rid now)) s =
     (i < length (awaiting s) \<and> e_id (i_expert (awaiting s ! i)) = expertId)"
| "removesMarkersOf expertId ev s = False"

text \<open>
  \<open>undisturbed expertId evs s\<close>: in the run of \<open>evs\<close> from \<open>s\<close> no event takes the
  markers of the expert away.
\<close>

fun undisturbed :: "(jsstring \<Rightarrow> jsstring) \<Rightarrow> TeamTasksProps \<Rightarrow> jsstring \<Rightarrow> event list \<Rightarrow>
    state \<Rightarrow> bool" where
  "undisturbed toLowerCase props expertId [] s = True"
| "undisturbed toLowerCase props expertId (ev # evs) s =
     (\<not> removesMarkersOf expertId ev s \<and>
      (case applyEvent toLowerCase props ev s of
         None \<Rightarrow> True
       | Some s' \<Rightarrow> undisturbed toLowerCase props expertId evs s'))"

text \<open>What one event does to the list of markers.\<close>

lemma pending_step:
  assumes "applyEvent toLowerCase props ev s = Some s'"
  shows "(\<exists>extra. pendingTasks s' = pendingTasks s @ extra)
       \<or> (\<exists>expertId. removesMarkersOf expertId ev s \<and>
             pendingTasks s' = filter (\<lambda>p. p_expertId p \<noteq> expertId) (pendingTasks s))
       \<or> (\<exists>expert message. pendingTasks s' = map (markError expert message) (pendingTasks s))"
proof (cases ev)
  case (Settle i outcome)
  with assms have i: "i < length (awaiting s)" by (simp split: if_splits)
  show ?thesis
  proof (cases outcome)
    case (Fulfilled resp rid t)
    from assms Settle Fulfilled settle_fulfilled_state[OF i, of toLowerCase props resp rid t]
    have "pendingTasks s' =
            filter (\<lambda>p. p_expertId p \<noteq> e_id (i_expert (awaiting s ! i))) (pendingTasks s)"
      by (auto simp del: applyEvent.simps)
    moreover have "removesMarkersOf (e_id (i_expert (awaiting s ! i))) ev s"
      using Settle Fulfilled i by simp
    ultimately show ?thesis by blast
  next
    case (Rejected message)
    from assms Settle Rejected settle_rejected_state[OF i, of toLowerCase props message]
    have "pendingTasks s' = map (markError (i_expert (awaiting s ! i)) message) (pendingTasks s)"
      by (auto simp del: applyEvent.simps)
    then show ?thesis by blast
  qed
next
  case (TimerFires i t)
  with assms have i: "i < length (timers s)"
    and s': "s' = fold (executeSingleTask_start t) (timers s ! i) (s\<lparr>timers := removeAt i (timers s)\<rparr>)"
    by (simp_all split: if_splits)
  have "pendingTasks s' = pendingTasks s @
          (if stopAutoExecutionRef s then [] else map (markerOf t) (timers s ! i))"
    unfolding s'
    by (cases "stopAutoExecutionRef s") (simp_all add: fold_start_running fold_start_stopped_fields)
  then show ?thesis by blast
next
  case (ClickExecute t)
  have "\<exists>extra. pendingTasks s' = pendingTasks s @ extra"
  proof (cases "handleExecuteBatchTasks props t s")
    case (Inl a)
    with assms ClickExecute have "s' = s" by (auto split: if_splits)
    then show ?thesis by simp
  next
    case (Inr u)
    then have "validation props s = None"
      by (cases "validation props s") (auto dest: handleExecute_rejects[where now = t])
    from handleExecute_accepts[OF this, of t] Inr assms ClickExecute
    have "pendingTasks s' = pendingTasks s @ map (markerOf t) (rootCalls props s)"
      by (auto split: if_splits)
    then show ?thesis by blast
  qed
  then show ?thesis by blast
next
  case (ClearPending expertId)
  with assms have "pendingTasks s' = filter (\<lambda>p. p_expertId p \<noteq> expertId) (pendingTasks s)"
    by (auto simp: handleClearPending_def)
  moreover have "removesMarkersOf expertId ev s" using ClearPending by simp
  ultimately show ?thesis by blast
next
  case (InputChange val)
  with assms have "pendingTasks s' = pendingTasks s @ []"
    by (auto simp: handleInputStringChange_def Let_def split: if_splits)
  then show ?thesis by blast
next
  case (ToggleExpert eid)
  with assms have "pendingTasks s' = pendingTasks s @ []"
    by (auto simp: toggleExpertSelection_def split: if_splits)
  then show ?thesis by blast
next
  case SelectAll
  with assms have "pendingTasks s' = pendingTasks s @ []"
    by (auto simp: selectAllExperts_def split: if_splits)
  then show ?thesis by blast
next
  case (MentionSelect expert)
  with assms have "pendingTasks s' = pendingTasks s @ []"
    by (auto simp: handleMentionSelect_def split: if_splits)
  then show ?thesis by blast
next
  case ClickStop
  with assms have "pendingTasks s' = pendingTasks s @ []"
    by (auto simp: handleStopExecution_def split: if_splits)
  then show ?thesis by blast
next
  case DismissNotice
  with assms have "pendingTasks s' = pendingTasks s @ []" by auto
  then show ?thesis by blast
next
  case (DeleteResult rid)
  with assms have "pendingTasks s' = pendingTasks s @ []" by (auto simp: handleDeleteResult_def)
  then show ?thesis by blast
next
  case ClearResults
  with assms have "pendingTasks s' = pendingTasks s @ []" by auto
  then show ?thesis by blast
qed

text \<open>
  A marker stays, with its identifier, its expert and its trigger, through every event
  that does not take the markers of its expert away.
\<close>

lemma marker_kept_step:
  assumes ev: "applyEvent toLowerCase props ev s = Some s'"
    and p: "p \<in> set (pendingTasks s)"
    and keep: "\<not> removesMarkersOf (p_expertId p) ev s"
  shows "\<exists>p' \<in> set (pendingTasks s'). p_id p' = p_id p \<and> p_expertId p' = p_expertId p
           \<and> p_triggerBy p' = p_triggerBy p"
proof -
  from pending_step[OF ev] consider
      (grows) extra where "pendingTasks s' = pendingTasks s @ extra"
    | (removes) expertId where "removesMarkersOf expertId ev s"
        "pendingTasks s' = filter (\<lambda>p. p_expertId p \<noteq> expertId) (pendingTasks s)"
    | (marks) expert message where "pendingTasks s' = map (markError expert message) (pendingTasks s)"
    by blast
  then show ?thesis
  proof cases
    case grows
    with p have "p \<in> set (pendingTasks s')" by simp
    then show ?thesis by blast
  next
    case removes
    with keep have "p_expertId p \<noteq> expertId" by auto
    with removes(2) p have "p \<in> set (pendingTasks s')" by simp
    then show ?thesis by blast
  next
    case marks
    with p have "markError expert message p \<in> set (pendingTasks s')" by simp
    moreover have "p_triggerBy (markError expert message p) = p_triggerBy p"
      by (simp add: markError_def)
    ultimately show ?thesis
      by (intro bexI[of _ "markError expert message p"]) simp_all
  qed
qed

lemma marker_kept_run:
  assumes "run toLowerCase props evs s = Some s'"
    and "p \<in> set (pendingTasks s)"
    and "undisturbed toLowerCase props (p_expertId p) evs s"
  shows "\<exists>p' \<in> set (pendingTasks s'). p_id p' = p_id p \<and> p_expertId p' = p_expertId p
           \<and> p_triggerBy p' = p_triggerBy p"
  using assms
proof (induction evs arbitrary: s p)
  case Nil
  then show ?case by auto
next
  case (Cons ev evs)
  from Cons.prems(1) obtain t where t: "applyEvent toLowerCase props ev s = Some t"
    and r: "run toLowerCase props evs t = Some s'"
    by (auto split: option.splits)
  from Cons.prems(3) t have keep: "\<not> removesMarkersOf (p_expertId p) ev s"
    and rest: "undisturbed toLowerCase props (p_expertId p) evs t"
    by simp_all
  from marker_kept_step[OF t Cons.prems(2) keep] obtain q
    where q: "q \<in> set (pendingTasks t)" "p_id q = p_id p" "p_expertId q = p_expertId p"
      "p_triggerBy q = p_triggerBy p"
    by blast
  from rest q(3) have "undisturbed toLowerCase props (p_expertId q) evs t" by simp
  from Cons.IH[OF r q(1) this] q show ?case by auto
qed

text \<open>
  A call that an event adds to the suspended calls was started by that event, a click on
  the execute button or a timer, and its marker is in the list after the event.
\<close>

lemma started_call_has_marker:
  assumes ev: "applyEvent toLowerCase props ev s = Some s'"
    and k: "length (awaiting s) \<le> k" "k < length (awaiting s')"
  shows "\<exists>now. (ev = ClickExecute now \<or> (\<exists>j. ev = TimerFires j now)) \<and>
           markerOf now (awaiting s' ! k) \<in> set (pendingTasks s')"
proof -
  have grow: "\<exists>now. (ev = ClickExecute now \<or> (\<exists>j. ev = TimerFires j now)) \<and>
           markerOf now (awaiting s' ! k) \<in> set (pendingTasks s')"
    if a: "awaiting s' = awaiting s @ new" and m: "pendingTasks s' = pendingTasks s @ map (markerOf now) new"
      and e: "ev = ClickExecute now \<or> (\<exists>j. ev = TimerFires j now)" for new now
  proof -
    from k a have "k - length (awaiting s) < length new" by simp
    moreover from k a have "awaiting s' ! k = new ! (k - length (awaiting s))"
      by (simp add: nth_append)
    ultimately have "awaiting s' ! k \<in> set new" by simp
    with m have "markerOf now (awaiting s' ! k) \<in> set (pendingTasks s')" by simp
    with e show ?thesis by blast
  qed
  have shrink: False if "length (awaiting s') \<le> length (awaiting s)"
    using that k by simp
  show ?thesis
  proof (cases ev)
    case (Settle i outcome)
    with ev have i: "i < length (awaiting s)" by (simp split: if_splits)
    from ev Settle i have "awaiting s' = removeAt i (awaiting s)"
      by (cases outcome)
         (auto simp del: applyEvent.simps simp add: settle_fulfilled_state settle_rejected_state)
    with removeAt_length[OF i] have "length (awaiting s') \<le> length (awaiting s)" by simp
    then show ?thesis using shrink by blast
  next
    case (TimerFires i t)
    with ev have i: "i < length (timers s)"
      and s': "s' = fold (executeSingleTask_start t) (timers s ! i) (s\<lparr>timers := removeAt i (timers s)\<rparr>)"
      by (simp_all split: if_splits)
    show ?thesis
    proof (cases "stopAutoExecutionRef s")
      case True
      then have "awaiting s' = awaiting s" unfolding s' by (simp add: fold_start_stopped_fields)
      then show ?thesis using shrink by simp
    next
      case False
      then have "awaiting s' = awaiting s @ timers s ! i"
        "pendingTasks s' = pendingTasks s @ map (markerOf t) (timers s ! i)"
        unfolding s' by (simp_all add: fold_start_running)
      then show ?thesis using grow[of "timers s ! i" t] TimerFires by blast
    qed
  next
    case (ClickExecute t)
    show ?thesis
    proof (cases "handleExecuteBatchTasks props t s")
      case (Inl a)
      with ev ClickExecute have "s' = s" by (auto split: if_splits)
      then show ?thesis using shrink by simp
    next
      case (Inr u)
      then have "validation props s = None"
        by (cases "validation props s") (auto dest: handleExecute_rejects[where now = t])
      from handleExecute_accepts[OF this, of t] Inr ev ClickExecute
      have "awaiting s' = awaiting s @ rootCalls props s"
        "pendingTasks s' = pendingTasks s @ map (markerOf t) (rootCalls props s)"
        by (auto split: if_splits)
      then show ?thesis using grow[of "rootCalls props s" t] ClickExecute by blast
    qed
  next
    case (ClearPending expertId)
    with ev have "awaiting s' = awaiting s" by (auto simp: handleClearPending_def)
    then show ?thesis using shrink by simp
  next
    case (InputChange val)
    with ev have "awaiting s' = awaiting s"
      by (auto simp: handleInputStringChange_def Let_def split: if_splits)
    then show ?thesis using shrink by simp
  next
    case (ToggleExpert eid)
    with ev have "awaiting s' = awaiting s"
      by (auto simp: toggleExpertSelection_def split: if_splits)
    then show ?thesis using shrink by simp
  next
    case SelectAll
    with ev have "awaiting s' = awaiting s"
      by (auto simp: selectAllExperts_def split: if_splits)
    then show ?thesis using shrink by simp
  next
    case (MentionSelect expert)
    with ev have "awaiting s' = awaiting s"
      by (auto simp: handleMentionSelect_def split: if_splits)
    then show ?thesis using shrink by simp
  next
    case ClickStop
    with ev have "awaiting s' = awaiting s"
      by (auto simp: handleStopExecution_def split: if_splits)
    then show ?thesis using shrink by simp
  next
    case DismissNotice
    with ev have "awaiting s' = awaiting s" by auto
    then show ?thesis using shrink by simp
  next
    case (DeleteResult rid)
    with ev have "awaiting s' = awaiting s" by (auto simp: handleDeleteResult_def)
    then show ?thesis using shrink by simp
  next
    case ClearResults
    with ev have "awaiting s' = awaiting s" by auto
    then show ?thesis using shrink by simp
  qed
qed

text \<open>
  The marker of a started call is in the list when the call settles, unless an event in
  between took the markers of its expert away.
\<close>

lemma own_marker_present:
  assumes ev: "applyEvent toLowerCase props ev0 s0 = Some s1"
    and k: "length (awaiting s0) \<le> k" "k < length (awaiting s1)"
    and r: "run toLowerCase props evs s1 = Some s"
    and u: "undisturbed toLowerCase props (e_id (i_expert (awaiting s1 ! k))) evs s1"
  shows "\<exists>now p. (ev0 = ClickExecute now \<or> (\<exists>j. ev0 = TimerFires j now))
           \<and> p \<in> set (pendingTasks s)
           \<and> p_id p = pendingId now (i_expert (awaiting s1 ! k))
           \<and> p_expertId p = e_id (i_expert (awaiting s1 ! k))
           \<and> p_triggerBy p = i_triggerBy (awaiting s1 ! k)"
proof -
  let ?c = "awaiting s1 ! k"
  from started_call_has_marker[OF ev k] obtain now
    where e: "ev0 = ClickExecute now \<or> (\<exists>j. ev0 = TimerFires j now)"
      and m: "markerOf now ?c \<in> set (pendingTasks s1)"
    by blast
  from u have "undisturbed toLowerCase props (p_expertId (markerOf now ?c)) evs s1" by simp
  from marker_kept_run[OF r m this] obtain p
    where "p \<in> set (pendingTasks s)" "p_id p = p_id (markerOf now ?c)"
      "p_expertId p = p_expertId (markerOf now ?c)" "p_triggerBy p = p_triggerBy (markerOf now ?c)"
    by blast
  then have "p \<in> set (pendingTasks s) \<and> p_id p = pendingId now (i_expert ?c)
      \<and> p_expertId p = e_id (i_expert ?c) \<and> p_triggerBy p = i_triggerBy ?c"
    by (simp add: markerOf_def)
  with e show ?thesis by blast
qed


text \<open>
  The run \<open>delegatingRun\<close> up to the failure of Bob, in steps: the timer starts the call
  of Bob, and the user types before the call fails.
\<close>

lemma delegating_started:
  "\<exists>s0 s1 s.
      applyEvent asciiLower demoProps (TimerFires 0 9) s0 = Some s1 \<and>
      run asciiLower demoProps [InputChange (lit ''x'')] s1 = Some s \<and>
      run asciiLower demoProps (butlast delegatingRun @ [InputChange (lit ''x'')])
        (initialState demoProps) = Some s \<and>
      awaiting s0 = [] \<and> length (awaiting s1) = 1 \<and> awaiting s1 ! 0 = awaiting s ! 0 \<and>
      length (awaiting s) = 1 \<and> activeTaskCount s = 1 \<and>
      e_id (i_expert (awaiting s ! 0)) = lit ''2'' \<and> length (pendingTasks s) = 1"
proof -
  obtain s0 where s0: "run asciiLower demoProps (take 3 delegatingRun) (initialState demoProps) = Some s0"
    and a0: "awaiting s0 = []" "length (timers s0) = 1"
    by (simp add: delegatingRun_def eval_defs)
  obtain s1 where s1: "applyEvent asciiLower demoProps (TimerFires 0 9) s0 = Some s1"
    using a0 by simp
  have b: "butlast delegatingRun = take 3 delegatingRun @ [TimerFires 0 9]"
    by (simp add: delegatingRun_def)
  have r1: "run asciiLower demoProps (butlast delegatingRun) (initialState demoProps) = Some s1"
    unfolding b run_append s0 using s1 by (simp del: applyEvent.simps)
  obtain s where s: "applyEvent asciiLower demoProps (InputChange (lit ''x'')) s1 = Some s"
    by simp
  then have sx: "s = handleInputStringChange (lit ''x'') s1" by simp
  have r: "run asciiLower demoProps [InputChange (lit ''x'')] s1 = Some s"
    using s by (simp del: applyEvent.simps)
  have r2: "run asciiLower demoProps (butlast delegatingRun @ [InputChange (lit ''x'')])
        (initialState demoProps) = Some s"
    unfolding run_append r1 using r by simp
  from delegating_before_failure r1
  have q: "length (awaiting s1) = 1" "activeTaskCount s1 = 1"
    "map p_expertId (pendingTasks s1) = [e_id (i_expert (awaiting s1 ! 0))]"
    by simp_all
  have same: "awaiting s = awaiting s1" "activeTaskCount s = activeTaskCount s1"
    "pendingTasks s = pendingTasks s1"
    unfolding sx by (simp_all add: handleInputStringChange_def Let_def)
  have "\<exists>t. run asciiLower demoProps (butlast delegatingRun) (initialState demoProps) = Some t
          \<and> e_id (i_expert (awaiting t ! 0)) = lit ''2''"
    by (simp add: delegatingRun_def eval_defs)
  with r1 have e: "e_id (i_expert (awaiting s1 ! 0)) = lit ''2''" by simp
  from q(3) have l: "length (pendingTasks s1) = 1"
    by (cases "pendingTasks s1") auto
  from s1 r r2 a0(1) q same e l show ?thesis by (intro exI[of _ s0] exI[of _ s1] exI[of _ s]) simp
qed

text \<open>
  Claim C7, amended. When the adapter call of a suspended call fails, in any reachable
  state: every marker then present for the expert of the call gets the status error and
  the message of the failure (the default message when the failure has none or an empty
  one); the markers of other experts, the results, the timers, the other suspended
  calls, the cancellation flag and everything else stay as they are; no follow-up is
  scheduled; the counter goes down by exactly one. The marker that the call appended
  when it started is among those set to error, with its identifier and its trigger,
  whenever no event since the start of the call took the markers of its expert away,
  that is, no call of the same expert was fulfilled and the user did not clear them.
\<close>

theorem failure_is_contained:
  assumes reach: "run toLowerCase props evs (initialState props) = Some s"
    and i: "i < length (awaiting s)"
  shows "applyEvent toLowerCase props (Settle i (Rejected message)) s =
           Some (s\<lparr>awaiting := removeAt i (awaiting s),
                   pendingTasks := map (markError (i_expert (awaiting s ! i)) message) (pendingTasks s),
                   activeTaskCount := activeTaskCount s - 1\<rparr>)
       \<and> (\<forall>p \<in> set (pendingTasks s).
             (p_expertId p = e_id (i_expert (awaiting s ! i)) \<longrightarrow>
                p_status (markError (i_expert (awaiting s ! i)) message p) = Error \<and>
                p_errorMessage (markError (i_expert (awaiting s ! i)) message p) = Some (errMessage message)) \<and>
             (p_expertId p \<noteq> e_id (i_expert (awaiting s ! i)) \<longrightarrow>
                markError (i_expert (awaiting s ! i)) message p = p))
       \<and> (\<forall>m. message = Some m \<and> m \<noteq> [] \<longrightarrow> errMessage message = m)
       \<and> (message = None \<or> message = Some [] \<longrightarrow> errMessage message = unknownError)
       \<and> (\<forall>ev0 s0 s1 k evs'.
             applyEvent toLowerCase props ev0 s0 = Some s1
             \<and> length (awaiting s0) \<le> k \<and> k < length (awaiting s1)
             \<and> awaiting s1 ! k = awaiting s ! i
             \<and> run toLowerCase props evs' s1 = Some s
             \<and> undisturbed toLowerCase props (e_id (i_expert (awaiting s ! i))) evs' s1 \<longrightarrow>
             (\<exists>now s' q. (ev0 = ClickExecute now \<or> (\<exists>j. ev0 = TimerFires j now))
                \<and> applyEvent toLowerCase props (Settle i (Rejected message)) s = Some s'
                \<and> q \<in> set (pendingTasks s')
                \<and> p_id q = pendingId now (i_expert (awaiting s ! i))
                \<and> p_expertId q = e_id (i_expert (awaiting s ! i))
                \<and> p_triggerBy q = i_triggerBy (awaiting s ! i)
                \<and> p_status q = Error
                \<and> p_errorMessage q = Some (errMessage message)))"
proof -
  let ?expert = "i_expert (awaiting s ! i)"
  let ?s' = "s\<lparr>awaiting := removeAt i (awaiting s),
               pendingTasks := map (markError ?expert message) (pendingTasks s),
               activeTaskCount := activeTaskCount s - 1\<rparr>"
  have cs: "consistent s"
    by (rule run_consistent[OF initial_consistent reach])
  from consistent_count[OF cs] i have "1 \<le> activeTaskCount s"
    by (cases "awaiting s") simp_all
  then have mx: "max 0 (activeTaskCount s - 1) = activeTaskCount s - 1" by simp
  have a: "applyEvent toLowerCase props (Settle i (Rejected message)) s = Some ?s'"
    unfolding settle_rejected_state[OF i] mx by (rule refl)
  have b: "\<forall>p \<in> set (pendingTasks s).
             (p_expertId p = e_id ?expert \<longrightarrow>
                p_status (markError ?expert message p) = Error \<and>
                p_errorMessage (markError ?expert message p) = Some (errMessage message)) \<and>
             (p_expertId p \<noteq> e_id ?expert \<longrightarrow> markError ?expert message p = p)"
    by (simp add: markError_def)
  have c: "\<forall>m. message = Some m \<and> m \<noteq> [] \<longrightarrow> errMessage message = m"
    by (simp add: errMessage_def)
  have d: "message = None \<or> message = Some [] \<longrightarrow> errMessage message = unknownError"
    by (auto simp: errMessage_def)
  have e: "\<forall>ev0 s0 s1 k evs'.
             applyEvent toLowerCase props ev0 s0 = Some s1
             \<and> length (awaiting s0) \<le> k \<and> k < length (awaiting s1)
             \<and> awaiting s1 ! k = awaiting s ! i
             \<and> run toLowerCase props evs' s1 = Some s
             \<and> undisturbed toLowerCase props (e_id ?expert) evs' s1 \<longrightarrow>
             (\<exists>now s' q. (ev0 = ClickExecute now \<or> (\<exists>j. ev0 = TimerFires j now))
                \<and> applyEvent toLowerCase props (Settle i (Rejected message)) s = Some s'
                \<and> q \<in> set (pendingTasks s')
                \<and> p_id q = pendingId now ?expert
                \<and> p_expertId q = e_id ?expert
                \<and> p_triggerBy q = i_triggerBy (awaiting s ! i)
                \<and> p_status q = Error
                \<and> p_errorMessage q = Some (errMessage message))"
  proof (intro allI impI)
    fix ev0 s0 s1 k evs'
    assume h: "applyEvent toLowerCase props ev0 s0 = Some s1
             \<and> length (awaiting s0) \<le> k \<and> k < length (awaiting s1)
             \<and> awaiting s1 ! k = awaiting s ! i
             \<and> run toLowerCase props evs' s1 = Some s
             \<and> undisturbed toLowerCase props (e_id ?expert) evs' s1"
    then have ev: "applyEvent toLowerCase props ev0 s0 = Some s1"
      and k: "length (awaiting s0) \<le> k" "k < length (awaiting s1)"
      and same: "awaiting s1 ! k = awaiting s ! i"
      and r: "run toLowerCase props evs' s1 = Some s"
      and u: "undisturbed toLowerCase props (e_id (i_expert (awaiting s1 ! k))) evs' s1"
      by simp_all
    from own_marker_present[OF ev k r u] same obtain now p
      where st: "ev0 = ClickExecute now \<or> (\<exists>j. ev0 = TimerFires j now)"
        and p: "p \<in> set (pendingTasks s)" "p_id p = pendingId now ?expert"
          "p_expertId p = e_id ?expert" "p_triggerBy p = i_triggerBy (awaiting s ! i)"
      by auto
    let ?q = "markError ?expert message p"
    from p(1) have "?q \<in> set (pendingTasks ?s')" by simp
    moreover from p have "p_id ?q = pendingId now ?expert" "p_expertId ?q = e_id ?expert"
      "p_triggerBy ?q = i_triggerBy (awaiting s ! i)" "p_status ?q = Error"
      "p_errorMessage ?q = Some (errMessage message)"
      by (simp_all add: markError_def)
    ultimately show "\<exists>now s' q. (ev0 = ClickExecute now \<or> (\<exists>j. ev0 = TimerFires j now))
                \<and> applyEvent toLowerCase props (Settle i (Rejected message)) s = Some s'
                \<and> q \<in> set (pendingTasks s')
                \<and> p_id q = pendingId now ?expert
                \<and> p_expertId q = e_id ?expert
                \<and> p_triggerBy q = i_triggerBy (awaiting s ! i)
                \<and> p_status q = Error
                \<and> p_errorMessage q = Some (errMessage message)"
      using st a by (intro exI[of _ now] exI[of _ ?s'] exI[of _ ?q]) simp
  qed
  show ?thesis
    by (intro conjI) (fact a, fact b, fact c, fact d, fact e)
qed

theorem failure_is_contained_witness:
  "map_option activeTaskCount
     (run asciiLower demoProps
        (butlast delegatingRun @ [InputChange (lit ''x''), Settle 0 (Rejected (Some (lit ''401'')))])
        (initialState demoProps)) = Some 0
   \<and> map_option (map p_errorMessage)
       (map_option pendingTasks
         (run asciiLower demoProps
            (butlast delegatingRun @ [InputChange (lit ''x''), Settle 0 (Rejected (Some (lit ''401'')))])
            (initialState demoProps))) = Some [Some (lit ''401'')]
   \<and> map_option (map p_id)
       (map_option pendingTasks
         (run asciiLower demoProps
            (butlast delegatingRun @ [InputChange (lit ''x''), Settle 0 (Rejected (Some (lit ''401'')))])
            (initialState demoProps))) = Some [lit ''pending_9_2'']"
proof -
  from delegating_started obtain s0 s1 s
    where ev: "applyEvent asciiLower demoProps (TimerFires 0 9) s0 = Some s1"
      and r1: "run asciiLower demoProps [InputChange (lit ''x'')] s1 = Some s"
      and r: "run asciiLower demoProps (butlast delegatingRun @ [InputChange (lit ''x'')])
                (initialState demoProps) = Some s"
      and a0: "awaiting s0 = []"
      and a1: "length (awaiting s1) = 1" "awaiting s1 ! 0 = awaiting s ! 0"
      and q: "length (awaiting s) = 1" "activeTaskCount s = 1"
      and e: "e_id (i_expert (awaiting s ! 0)) = lit ''2''"
      and l: "length (pendingTasks s) = 1"
    by (elim exE conjE) (rule that, assumption+)
  from q(1) have i: "0 < length (awaiting s)" by simp
  let ?msg = "Some (lit ''401'')"
  let ?s' = "s\<lparr>awaiting := removeAt 0 (awaiting s),
               pendingTasks := map (markError (i_expert (awaiting s ! 0)) ?msg) (pendingTasks s),
               activeTaskCount := activeTaskCount s - 1\<rparr>"
  note inst = failure_is_contained[OF r i, of ?msg]
  from inst have a: "applyEvent asciiLower demoProps (Settle 0 (Rejected ?msg)) s = Some ?s'"
    by (rule conjunct1)
  have u: "undisturbed asciiLower demoProps (e_id (i_expert (awaiting s ! 0))) [InputChange (lit ''x'')] s1"
    by simp
  have l0: "length (awaiting s0) \<le> 0" using a0 by simp
  have l1: "0 < length (awaiting s1)" using a1(1) by simp
  have prem: "applyEvent asciiLower demoProps (TimerFires 0 9) s0 = Some s1
       \<and> length (awaiting s0) \<le> 0 \<and> 0 < length (awaiting s1)
       \<and> awaiting s1 ! 0 = awaiting s ! 0
       \<and> run asciiLower demoProps [InputChange (lit ''x'')] s1 = Some s
       \<and> undisturbed asciiLower demoProps (e_id (i_expert (awaiting s ! 0))) [InputChange (lit ''x'')] s1"
    by (intro conjI) (fact ev, fact l0, fact l1, fact a1(2), fact r1, fact u)
  note own = inst[THEN conjunct2, THEN conjunct2, THEN conjunct2, THEN conjunct2, rule_format,
      of "TimerFires 0 9" s0 s1 0 "[InputChange (lit ''x'')]"]
  from own[OF prem]
  obtain now s' q where st: "TimerFires 0 9 = ClickExecute now \<or> (\<exists>j. TimerFires 0 9 = TimerFires j now)"
    and s': "applyEvent asciiLower demoProps (Settle 0 (Rejected ?msg)) s = Some s'"
    and qm: "q \<in> set (pendingTasks s')" "p_id q = pendingId now (i_expert (awaiting s ! 0))"
      "p_expertId q = e_id (i_expert (awaiting s ! 0))"
      "p_triggerBy q = i_triggerBy (awaiting s ! 0)"
      "p_status q = Error" "p_errorMessage q = Some (errMessage ?msg)"
    by (elim exE conjE) (rule that, assumption+)
  from st have now: "now = 9" by simp
  from s' a have eq: "s' = ?s'" by simp
  from l obtain p where p: "pendingTasks s = [p]"
    by (cases "pendingTasks s") auto
  from qm(1) have qq: "pendingTasks ?s' = [q]"
    unfolding eq by (simp add: p)
  have m: "errMessage ?msg = lit ''401''"
    by (simp add: errMessage_def lit_def)
  have pid: "pendingId 9 (i_expert (awaiting s ! 0)) = lit ''pending_9_2''"
    by (simp add: pendingId_def e lit_def showNat.simps)
  have run: "run asciiLower demoProps
        (butlast delegatingRun @ [InputChange (lit ''x''), Settle 0 (Rejected ?msg)])
        (initialState demoProps) = Some ?s'"
  proof -
    have "run asciiLower demoProps
            ((butlast delegatingRun @ [InputChange (lit ''x'')]) @ [Settle 0 (Rejected ?msg)])
            (initialState demoProps) =
          run asciiLower demoProps [Settle 0 (Rejected ?msg)] s"
      by (subst run_append) (simp only: r option.case)
    also have "\<dots> = Some ?s'"
      using a by (simp del: applyEvent.simps)
    finally show ?thesis by simp
  qed
  have "activeTaskCount ?s' = 0" using q(2) by simp
  moreover have "map p_errorMessage (pendingTasks ?s') = [Some (lit ''401'')]"
    unfolding qq using qm(6) m by simp
  moreover have "map p_id (pendingTasks ?s') = [lit ''pending_9_2'']"
    unfolding qq using qm(2) now pid by simp
  ultimately show ?thesis
    unfolding run by simp
qed

text \<open>Alice fails; the user types a new task and executes again; Alice succeeds.\<close>

definition failedRun :: "event list" where
  "failedRun =
     [InputChange (lit ''go''), ClickExecute 1, Settle 0 (Rejected (Some (lit ''401'')))]"

definition aliceError :: PendingTask where
  "aliceError = \<lparr>p_id = lit ''pending_1_1'', p_expertId = lit ''1'', p_expertName = lit ''Alice'',
       p_expertAvatar = [], p_status = Error, p_errorMessage = Some (lit ''401''),
       p_triggerBy = None\<rparr>"

lemma failedRun_state:
  "\<exists>s. run asciiLower demoProps failedRun (initialState demoProps) = Some s \<and>
        pendingTasks s = [aliceError]"
  by (simp add: failedRun_def aliceError_def eval_defs)

text \<open>
  Claim C8, as the specification states it, fails. The error marker of Alice is there
  after her failure; the user never clears it; it is gone once a later call of Alice is
  fulfilled.
\<close>

theorem error_marker_counterexample:
  "map_option pendingTasks
     (run asciiLower demoProps failedRun (initialState demoProps)) = Some [aliceError]
   \<and> map_option pendingTasks
     (run asciiLower demoProps
        (failedRun @ [InputChange (lit ''again''), ClickExecute 3,
                      Settle 0 (Fulfilled (lit ''fine'') (lit ''r1'') 4)])
        (initialState demoProps)) = Some []"
  by (simp add: failedRun_def aliceError_def eval_defs)

text \<open>
  Claim C8, amended. A call that starts with the cancellation flag clear appends its
  marker, with the status pending. A marker leaves the list only when a call of its
  expert is fulfilled (its own call or any other, earlier or later) or when the user
  clears the markers of that expert: after any other event a marker with the same
  identifier and expert is still there, and an error marker is still an error marker.
  A fulfilled call leaves no marker of its expert, a clear by the user none of the
  expert it names, and a rejected call leaves every marker of its expert with the
  status error.
\<close>

theorem marker_lifecycle:
  "(\<not> stopAutoExecutionRef s \<longrightarrow>
      pendingTasks (executeSingleTask_start now call s) = pendingTasks s @ [markerOf now call]
      \<and> p_status (markerOf now call) = Pending
      \<and> p_expertId (markerOf now call) = e_id (i_expert call))
   \<and> (\<forall>s' p. applyEvent toLowerCase props ev s = Some s' \<and> p \<in> set (pendingTasks s) \<longrightarrow>
         (\<exists>p' \<in> set (pendingTasks s'). p_id p' = p_id p \<and> p_expertId p' = p_expertId p
              \<and> (p_status p = Error \<longrightarrow> p_status p' = Error))
         \<or> ev = ClearPending (p_expertId p)
         \<or> (\<exists>i resp rid t. ev = Settle i (Fulfilled resp rid t) \<and> i < length (awaiting s)
              \<and> e_id (i_expert (awaiting s ! i)) = p_expertId p))
   \<and> (\<forall>i resp rid t s'. i < length (awaiting s) \<and>
         applyEvent toLowerCase props (Settle i (Fulfilled resp rid t)) s = Some s' \<longrightarrow>
         (\<forall>p \<in> set (pendingTasks s'). p_expertId p \<noteq> e_id (i_expert (awaiting s ! i))))
   \<and> (\<forall>expertId s'. applyEvent toLowerCase props (ClearPending expertId) s = Some s' \<longrightarrow>
         (\<forall>p \<in> set (pendingTasks s'). p_expertId p \<noteq> expertId))
   \<and> (\<forall>i message s'. i < length (awaiting s) \<and>
         applyEvent toLowerCase props (Settle i (Rejected message)) s = Some s' \<longrightarrow>
         length (pendingTasks s') = length (pendingTasks s) \<and>
         (\<forall>p \<in> set (pendingTasks s'). p_expertId p = e_id (i_expert (awaiting s ! i)) \<longrightarrow>
            p_status p = Error))"
proof (intro conjI allI impI)
  assume "\<not> stopAutoExecutionRef s"
  then show "pendingTasks (executeSingleTask_start now call s) = pendingTasks s @ [markerOf now call]"
    by (simp add: executeSingleTask_start_def markerOf_def)
next
  show "p_status (markerOf now call) = Pending" by simp
next
  show "p_expertId (markerOf now call) = e_id (i_expert call)" by simp
next
  fix s' p
  assume a: "applyEvent toLowerCase props ev s = Some s' \<and> p \<in> set (pendingTasks s)"
  then have ev: "applyEvent toLowerCase props ev s = Some s'" and p: "p \<in> set (pendingTasks s)"
    by simp_all
  let ?kept = "\<exists>p' \<in> set (pendingTasks s'). p_id p' = p_id p \<and> p_expertId p' = p_expertId p
              \<and> (p_status p = Error \<longrightarrow> p_status p' = Error)"
  have same: "?kept" if "p \<in> set (pendingTasks s')"
    using that by blast
  show "?kept \<or> ev = ClearPending (p_expertId p)
         \<or> (\<exists>i resp rid t. ev = Settle i (Fulfilled resp rid t) \<and> i < length (awaiting s)
              \<and> e_id (i_expert (awaiting s ! i)) = p_expertId p)"
  proof (cases ev)
    case (Settle i outcome)
    with ev have i: "i < length (awaiting s)" by (simp split: if_splits)
    show ?thesis
    proof (cases outcome)
      case (Fulfilled resp rid t)
      show ?thesis
      proof (cases "e_id (i_expert (awaiting s ! i)) = p_expertId p")
        case True
        with Settle Fulfilled i show ?thesis by blast
      next
        case False
        from ev Settle Fulfilled settle_fulfilled_state[OF i, of toLowerCase props resp rid t]
        have "pendingTasks s' =
              filter (\<lambda>p. p_expertId p \<noteq> e_id (i_expert (awaiting s ! i))) (pendingTasks s)"
          by (auto simp del: applyEvent.simps)
        with p False have "p \<in> set (pendingTasks s')" by auto
        then show ?thesis using same by blast
      qed
    next
      case (Rejected message)
      from ev Settle Rejected settle_rejected_state[OF i, of toLowerCase props message]
      have "pendingTasks s' = map (markError (i_expert (awaiting s ! i)) message) (pendingTasks s)"
        by (auto simp del: applyEvent.simps)
      with p have "markError (i_expert (awaiting s ! i)) message p \<in> set (pendingTasks s')"
        by simp
      then have ?kept by (rule bexI[rotated]) simp
      then show ?thesis by blast
    qed
  next
    case (TimerFires i t)
    with ev p fold_start_keeps_markers[of "s\<lparr>timers := removeAt i (timers s)\<rparr>" t "timers s ! i"]
    have "p \<in> set (pendingTasks s')" by (auto split: if_splits)
    then show ?thesis using same by blast
  next
    case (ClickExecute t)
    have "p \<in> set (pendingTasks s')"
    proof (cases "handleExecuteBatchTasks props t s")
      case (Inl a)
      with ev ClickExecute p show ?thesis by (auto split: if_splits)
    next
      case (Inr u)
      then have "validation props s = None"
        by (cases "validation props s") (auto dest: handleExecute_rejects[where now = t])
      from handleExecute_accepts[OF this, of t] Inr ev ClickExecute p show ?thesis
        by (auto split: if_splits)
    qed
    then show ?thesis using same by blast
  next
    case (ClearPending expertId)
    show ?thesis
    proof (cases "expertId = p_expertId p")
      case True
      with ClearPending show ?thesis by simp
    next
      case False
      with ev ClearPending p have "p \<in> set (pendingTasks s')"
        by (auto simp: handleClearPending_def)
      then show ?thesis using same by blast
    qed
  next
    case (InputChange val)
    with ev p have "p \<in> set (pendingTasks s')"
      by (auto simp: handleInputStringChange_def Let_def split: if_splits)
    then show ?thesis using same by blast
  next
    case (ToggleExpert eid)
    with ev p have "p \<in> set (pendingTasks s')"
      by (auto simp: toggleExpertSelection_def split: if_splits)
    then show ?thesis using same by blast
  next
    case SelectAll
    with ev p have "p \<in> set (pendingTasks s')"
      by (auto simp: selectAllExperts_def split: if_splits)
    then show ?thesis using same by blast
  next
    case (MentionSelect expert)
    with ev p have "p \<in> set (pendingTasks s')"
      by (auto simp: handleMentionSelect_def split: if_splits)
    then show ?thesis using same by blast
  next
    case ClickStop
    with ev p have "p \<in> set (pendingTasks s')"
      by (auto simp: handleStopExecution_def split: if_splits)
    then show ?thesis using same by blast
  next
    case DismissNotice
    with ev p have "p \<in> set (pendingTasks s')" by auto
    then show ?thesis using same by blast
  next
    case (DeleteResult rid)
    with ev p have "p \<in> set (pendingTasks s')" by (auto simp: handleDeleteResult_def)
    then show ?thesis using same by blast
  next
    case ClearResults
    with ev p have "p \<in> set (pendingTasks s')" by auto
    then show ?thesis using same by blast
  qed
next
  fix i resp rid t s'
  assume "i < length (awaiting s) \<and>
         applyEvent toLowerCase props (Settle i (Fulfilled resp rid t)) s = Some s'"
  then show "\<forall>p \<in> set (pendingTasks s'). p_expertId p \<noteq> e_id (i_expert (awaiting s ! i))"
    by (auto simp del: applyEvent.simps simp add: settle_fulfilled_state)
next
  fix expertId s'
  assume "applyEvent toLowerCase props (ClearPending expertId) s = Some s'"
  then show "\<forall>p \<in> set (pendingTasks s'). p_expertId p \<noteq> expertId"
    by (auto simp: handleClearPending_def)
next
  fix i message s'
  assume a: "i < length (awaiting s) \<and>
         applyEvent toLowerCase props (Settle i (Rejected message)) s = Some s'"
  then show "length (pendingTasks s') = length (pendingTasks s)"
    by (auto simp del: applyEvent.simps simp add: settle_rejected_state)
  from a show "\<forall>p \<in> set (pendingTasks s'). p_expertId p = e_id (i_expert (awaiting s ! i)) \<longrightarrow>
            p_status p = Error"
    by (auto simp del: applyEvent.simps simp add: settle_rejected_state markError_def)
qed

theorem marker_lifecycle_witness:
  "map_option pendingTasks
     (run asciiLower demoProps (failedRun @ [InputChange (lit ''again'')]) (initialState demoProps))
     = Some [aliceError]
   \<and> map_option pendingTasks
     (run asciiLower demoProps (failedRun @ [ClearPending (lit ''1'')]) (initialState demoProps))
     = Some []"
proof -
  from failedRun_state obtain s
    where r: "run asciiLower demoProps failedRun (initialState demoProps) = Some s"
      and p: "pendingTasks s = [aliceError]"
    by (elim exE conjE) (rule that, assumption+)
  obtain s' where c: "applyEvent asciiLower demoProps (ClearPending (lit ''1'')) s = Some s'"
    by simp
  from marker_lifecycle[where s = s and toLowerCase = asciiLower and props = demoProps
      and ev = "ClearPending (lit ''1'')"] c
  have "\<forall>p \<in> set (pendingTasks s'). p_expertId p \<noteq> lit ''1''"
    by blast
  moreover from c p have "set (pendingTasks s') \<subseteq> {aliceError}"
    by (auto simp: handleClearPending_def split: if_splits)
  ultimately have "pendingTasks s' = []"
    by (cases "pendingTasks s'") (auto simp: aliceError_def)
  with r p c show ?thesis
    by (simp add: run_append handleInputStringChange_def Let_def)
qed

section \<open>The resolution of the directives\<close>

text \<open>
  The words of the specification: a target name is resolved to a team member by
  case-insensitive substring containment on the name. \<open>spec_addressedTo\<close> says that
  the name of the member contains the target name of the directive in this sense.
\<close>

definition spec_addressedTo :: "(jsstring \<Rightarrow> jsstring) \<Rightarrow> jsstring \<Rightarrow> Expert \<Rightarrow> bool" where
  "spec_addressedTo toLowerCase targetName e =
     includes_str (toLowerCase (e_name e)) (toLowerCase (trim targetName))"

text \<open>What the loop does with one match: the follow-up it pushes, if any.\<close>

definition resolve :: "(jsstring \<Rightarrow> jsstring) \<Rightarrow> Expert list \<Rightarrow> Expert \<Rightarrow>
    jsstring \<times> jsstring \<Rightarrow> (Expert \<times> jsstring) option" where
  "resolve toLowerCase tm expert m =
     (case findTarget toLowerCase tm (fst m) of
        None \<Rightarrow> None
      | Some targetExpert \<Rightarrow>
          if e_id targetExpert \<noteq> e_id expert then Some (targetExpert, snd m) else None)"

lemma pushFollowUps_map_filter:
  "pushFollowUps toLowerCase tm expert ms = List.map_filter (resolve toLowerCase tm expert) ms"
  by (induction ms) (auto simp: resolve_def map_filter_simps split: option.splits)

lemma map_filter_all_Some:
  "\<forall>m \<in> set ms. f m \<noteq> None \<Longrightarrow> List.map_filter f ms = map (\<lambda>m. the (f m)) ms"
  by (induction ms) (auto simp: map_filter_simps split: option.splits)

lemma findTarget_first:
  "findTarget toLowerCase tm n = Some t \<longleftrightarrow>
     (\<exists>i < length tm. tm ! i = t \<and> spec_addressedTo toLowerCase n t \<and>
        (\<forall>j < i. \<not> spec_addressedTo toLowerCase n (tm ! j)))"
  unfolding findTarget_def spec_addressedTo_def find_Some_iff by blast

lemma findTarget_none:
  "findTarget toLowerCase tm n = None \<longleftrightarrow> (\<forall>e \<in> set tm. \<not> spec_addressedTo toLowerCase n e)"
  unfolding findTarget_def spec_addressedTo_def find_None_iff by blast

definition bobby :: Expert where
  "bobby = expertOf ''3'' ''Bobby''"

definition carol :: Expert where
  "carol = expertOf ''4'' ''Carol''"

text \<open>
  Claim C3, as the specification states it, fails. The team is Bobby, then Bob. The
  answer of Bobby has one well-formed directive, addressed to Bob: Bob is a member of
  the team, is not Bobby, and his name contains the target name. The search takes the
  first member whose name contains the target name, which is Bobby himself, and the
  directive is dropped as a self-delegation: no follow-up, where the claim says one.
\<close>

theorem first_match_counterexample:
  "execAll (lit '':::DELEGATE:::Bob:::go:::'') = [(lit ''Bob'', lit ''go'')]
   \<and> spec_addressedTo asciiLower (lit ''Bob'') bob
   \<and> bob \<in> set [bobby, bob]
   \<and> e_id bob \<noteq> e_id bobby
   \<and> followUpTasks asciiLower [bobby, bob] bobby 0 (lit '':::DELEGATE:::Bob:::go:::'') = []"
  by (simp add: spec_addressedTo_def bobby_def eval_defs)

text \<open>
  Claim C3, amended. For an answer at a depth below 2 the matches are processed in the
  order of the text. Each target name is resolved to the first member, in the order of
  the team, whose lower-cased name contains the trimmed, lower-cased target name. A match
  that resolves to no member or to the acting expert is dropped and raises nothing; equal
  targets are each kept. So when every one of the \<open>N\<close> matches of an answer
  resolves to a member other than the acting expert, exactly \<open>N\<close> follow-ups are
  produced, with the instructions of the matches in their order; and when the
  cancellation flag is clear at the settlement they are handed to one timer, each with
  the name of the acting expert as trigger and the depth of the answer plus one, and the
  counter grows by their number before the settled call leaves it.
\<close>

theorem followups_in_document_order:
  assumes "depth < 2"
  shows "followUpTasks toLowerCase tm expert depth resp =
           List.map_filter (resolve toLowerCase tm expert) (execAll resp)
     \<and> (\<forall>n t. findTarget toLowerCase tm n = Some t \<longleftrightarrow>
           (\<exists>i < length tm. tm ! i = t \<and> spec_addressedTo toLowerCase n t \<and>
              (\<forall>j < i. \<not> spec_addressedTo toLowerCase n (tm ! j))))
     \<and> (\<forall>n. findTarget toLowerCase tm n = None \<longleftrightarrow>
           (\<forall>e \<in> set tm. \<not> spec_addressedTo toLowerCase n e))
     \<and> ((\<forall>m \<in> set (execAll resp). \<exists>t. findTarget toLowerCase tm (fst m) = Some t \<and> e_id t \<noteq> e_id expert) \<longrightarrow>
           length (followUpTasks toLowerCase tm expert depth resp) = length (execAll resp)
           \<and> map snd (followUpTasks toLowerCase tm expert depth resp) = map snd (execAll resp)
           \<and> map (\<lambda>f. Some (fst f)) (followUpTasks toLowerCase tm expert depth resp) =
               map (\<lambda>m. findTarget toLowerCase tm (fst m)) (execAll resp))
     \<and> (\<forall>c \<in> set (followUpCalls expert depth (followUpTasks toLowerCase tm expert depth resp)).
           i_triggerBy c = Some (e_name expert) \<and> i_depth c = depth + 1)
     \<and> (\<forall>s i rid t. i < length (awaiting s) \<and> \<not> stopAutoExecutionRef s
           \<and> i_expert (awaiting s ! i) = expert \<and> i_depth (awaiting s ! i) = depth
           \<and> team props = tm \<and> followUpTasks toLowerCase tm expert depth resp \<noteq> [] \<longrightarrow>
           (\<exists>s'. applyEvent toLowerCase props (Settle i (Fulfilled resp rid t)) s = Some s'
              \<and> timers s' = timers s @
                    [followUpCalls expert depth (followUpTasks toLowerCase tm expert depth resp)]
              \<and> activeTaskCount s' = max 0 (activeTaskCount s
                    + int (length (followUpTasks toLowerCase tm expert depth resp)) - 1)))"
proof -
  let ?F = "followUpTasks toLowerCase tm expert depth resp"
  have a: "?F = List.map_filter (resolve toLowerCase tm expert) (execAll resp)"
    using assms by (simp add: followUpTasks_def MAX_DEPTH_def pushFollowUps_map_filter)
  have b: "\<forall>n t. findTarget toLowerCase tm n = Some t \<longleftrightarrow>
           (\<exists>i < length tm. tm ! i = t \<and> spec_addressedTo toLowerCase n t \<and>
              (\<forall>j < i. \<not> spec_addressedTo toLowerCase n (tm ! j)))"
    using findTarget_first by blast
  have c: "\<forall>n. findTarget toLowerCase tm n = None \<longleftrightarrow>
           (\<forall>e \<in> set tm. \<not> spec_addressedTo toLowerCase n e)"
    using findTarget_none by blast
  have d: "(\<forall>m \<in> set (execAll resp). \<exists>t. findTarget toLowerCase tm (fst m) = Some t \<and> e_id t \<noteq> e_id expert) \<longrightarrow>
           length ?F = length (execAll resp)
           \<and> map snd ?F = map snd (execAll resp)
           \<and> map (\<lambda>f. Some (fst f)) ?F = map (\<lambda>m. findTarget toLowerCase tm (fst m)) (execAll resp)"
  proof (rule impI)
    assume all: "\<forall>m \<in> set (execAll resp). \<exists>t. findTarget toLowerCase tm (fst m) = Some t \<and> e_id t \<noteq> e_id expert"
    from all have r: "\<forall>m \<in> set (execAll resp).
        resolve toLowerCase tm expert m = Some (the (findTarget toLowerCase tm (fst m)), snd m)"
      by (auto simp: resolve_def)
    then have "\<forall>m \<in> set (execAll resp). resolve toLowerCase tm expert m \<noteq> None"
      by simp
    from map_filter_all_Some[OF this] a
    have "?F = map (\<lambda>m. the (resolve toLowerCase tm expert m)) (execAll resp)"
      by simp
    also have "\<dots> = map (\<lambda>m. (the (findTarget toLowerCase tm (fst m)), snd m)) (execAll resp)"
      using r by simp
    finally have F: "?F = map (\<lambda>m. (the (findTarget toLowerCase tm (fst m)), snd m)) (execAll resp)" .
    have "map (\<lambda>f. Some (fst f)) ?F = map (\<lambda>m. findTarget toLowerCase tm (fst m)) (execAll resp)"
      unfolding F using all by auto
    then show "length ?F = length (execAll resp)
           \<and> map snd ?F = map snd (execAll resp)
           \<and> map (\<lambda>f. Some (fst f)) ?F = map (\<lambda>m. findTarget toLowerCase tm (fst m)) (execAll resp)"
      unfolding F by (simp add: comp_def)
  qed
  have e: "\<forall>c \<in> set (followUpCalls expert depth ?F).
           i_triggerBy c = Some (e_name expert) \<and> i_depth c = depth + 1"
    by (auto simp: followUpCalls_def)
  have f: "\<forall>s i rid t. i < length (awaiting s) \<and> \<not> stopAutoExecutionRef s
           \<and> i_expert (awaiting s ! i) = expert \<and> i_depth (awaiting s ! i) = depth
           \<and> team props = tm \<and> ?F \<noteq> [] \<longrightarrow>
           (\<exists>s'. applyEvent toLowerCase props (Settle i (Fulfilled resp rid t)) s = Some s'
              \<and> timers s' = timers s @ [followUpCalls expert depth ?F]
              \<and> activeTaskCount s' = max 0 (activeTaskCount s + int (length ?F) - 1))"
    by (auto simp del: applyEvent.simps simp add: settle_fulfilled_state spawned_def)
  show ?thesis
    by (intro conjI) (fact a, fact b, fact c, fact d, fact e, fact f)
qed

theorem followups_in_document_order_witness:
  "followUpTasks asciiLower [alice, bob, carol] alice 0
     (lit ''a:::DELEGATE:::bob:::b1:::b:::DELEGATE::: CAR :::c1:::'') =
     [(bob, lit ''b1''), (carol, lit ''c1'')]
   \<and> length (followUpTasks asciiLower [alice, bob, carol] alice 0
       (lit ''a:::DELEGATE:::bob:::b1:::b:::DELEGATE::: CAR :::c1:::'')) =
     length (execAll (lit ''a:::DELEGATE:::bob:::b1:::b:::DELEGATE::: CAR :::c1:::''))"
proof -
  let ?resp = "lit ''a:::DELEGATE:::bob:::b1:::b:::DELEGATE::: CAR :::c1:::''"
  let ?tm = "[alice, bob, carol]"
  have m: "execAll ?resp = [(lit ''bob'', lit ''b1''), (lit '' CAR '', lit ''c1'')]"
    by (simp add: eval_defs)
  have t: "findTarget asciiLower ?tm (lit ''bob'') = Some bob"
      "findTarget asciiLower ?tm (lit '' CAR '') = Some carol"
    by (simp_all add: carol_def eval_defs)
  have n: "e_id bob \<noteq> e_id alice" "e_id carol \<noteq> e_id alice"
    by (simp_all add: carol_def eval_defs)
  have r: "resolve asciiLower ?tm alice (lit ''bob'', lit ''b1'') = Some (bob, lit ''b1'')"
      "resolve asciiLower ?tm alice (lit '' CAR '', lit ''c1'') = Some (carol, lit ''c1'')"
    using t n by (simp_all add: resolve_def)
  have all: "\<forall>m \<in> set (execAll ?resp).
      \<exists>t. findTarget asciiLower ?tm (fst m) = Some t \<and> e_id t \<noteq> e_id alice"
    unfolding m using t n by simp
  have d: "(0::nat) < 2" by simp
  note inst = followups_in_document_order[OF d, of asciiLower ?tm alice ?resp]
  from inst have "followUpTasks asciiLower ?tm alice 0 ?resp =
          List.map_filter (resolve asciiLower ?tm alice) (execAll ?resp)"
    by (rule conjunct1)
  then have 1: "followUpTasks asciiLower ?tm alice 0 ?resp = [(bob, lit ''b1''), (carol, lit ''c1'')]"
    unfolding m by (simp add: map_filter_simps r)
  from inst all have 2: "length (followUpTasks asciiLower ?tm alice 0 ?resp) = length (execAll ?resp)"
    by blast
  from 1 2 show ?thesis by (rule conjI)
qed

section \<open>The cleaning of the text\<close>

text \<open>
  What a match is, as text: the sentinel, a target without line terminators, the
  separator, an instruction without line terminators, the separator.
\<close>

lemma lazyPlus_sound:
  assumes "lazyPlus k g xs = Some (grp, r)"
  shows "\<exists>taken rest. xs = taken @ rest \<and> grp = g @ taken \<and> taken \<noteq> [] \<and>
           (\<forall>c \<in> set taken. \<not> isLineTerminator c) \<and> k rest = Some r"
  using assms
proof (induction xs arbitrary: g)
  case Nil
  then show ?case by simp
next
  case (Cons x xs)
  from Cons.prems have nl: "\<not> isLineTerminator x" by (simp split: if_splits)
  show ?case
  proof (cases "k xs")
    case (Some r')
    with Cons.prems nl have "grp = g @ [x]" "r' = r" by simp_all
    with Some nl have "x # xs = [x] @ xs \<and> grp = g @ [x] \<and> [x] \<noteq> [] \<and>
           (\<forall>c \<in> set [x]. \<not> isLineTerminator c) \<and> k xs = Some r"
      by simp
    then show ?thesis by blast
  next
    case None
    with Cons.prems nl have "lazyPlus k (g @ [x]) xs = Some (grp, r)" by simp
    from Cons.IH[OF this] obtain taken rest
      where t: "xs = taken @ rest" "grp = (g @ [x]) @ taken"
        "\<forall>c \<in> set taken. \<not> isLineTerminator c" "k rest = Some r"
      by blast
    with nl have "x # xs = (x # taken) @ rest \<and> grp = g @ (x # taken) \<and> x # taken \<noteq> [] \<and>
           (\<forall>c \<in> set (x # taken). \<not> isLineTerminator c) \<and> k rest = Some r"
      by simp
    then show ?thesis by blast
  qed
qed

lemma matchAt_sound:
  assumes "matchAt xs = Some (target, instr, rest)"
  shows "xs = sentinel @ target @ separator @ instr @ separator @ rest
         \<and> target \<noteq> [] \<and> instr \<noteq> []
         \<and> (\<forall>c \<in> set (target @ instr). \<not> isLineTerminator c)"
proof -
  from assms obtain ys where ys: "startsWith sentinel xs = Some ys"
    and lp: "lazyPlus afterTarget [] ys = Some (target, instr, rest)"
    by (auto simp: matchAt_def split: option.splits)
  from lazyPlus_sound[OF lp] obtain zs
    where t: "ys = target @ zs" "target \<noteq> []" "\<forall>c \<in> set target. \<not> isLineTerminator c"
      and at: "afterTarget zs = Some (instr, rest)"
    by auto
  from at obtain us where us: "startsWith separator zs = Some us"
    and lp2: "lazyPlus (startsWith separator) [] us = Some (instr, rest)"
    by (auto simp: afterTarget_def split: option.splits)
  from lazyPlus_sound[OF lp2] obtain vs
    where i: "us = instr @ vs" "instr \<noteq> []" "\<forall>c \<in> set instr. \<not> isLineTerminator c"
      and e: "startsWith separator vs = Some rest"
    by auto
  from startsWith_append[OF ys] startsWith_append[OF us] startsWith_append[OF e] t i
  show ?thesis by auto
qed

lemma exec_sound:
  "exec xs = Some (skipped, target, instr, rest) \<Longrightarrow>
   xs = skipped @ sentinel @ target @ separator @ instr @ separator @ rest"
proof (induction xs arbitrary: skipped)
  case Nil
  then show ?case by simp
next
  case (Cons x xs)
  show ?case
  proof (cases "matchAt (x # xs)")
    case None
    with Cons.prems obtain sk where "exec xs = Some (sk, target, instr, rest)" "skipped = x # sk"
      by (auto split: option.splits)
    with Cons.IH[of sk] show ?thesis by simp
  next
    case (Some m)
    with Cons.prems have "matchAt (x # xs) = Some (target, instr, rest)" "skipped = []"
      by (auto split: prod.splits)
    with matchAt_sound[of "x # xs" target instr rest] show ?thesis by simp
  qed
qed

lemma stripDirectives_None: "exec t = None \<Longrightarrow> stripDirectives t = t"
  by (subst stripDirectives.simps) simp

lemma stripDirectives_Some:
  "exec t = Some (skipped, target, instr, rest) \<Longrightarrow> stripDirectives t = skipped @ stripDirectives rest"
  by (subst stripDirectives.simps) simp

lemma execAll_None: "exec t = None \<Longrightarrow> execAll t = []"
  by (subst execAll.simps) simp

lemma execAll_Some:
  "exec t = Some (skipped, target, instr, rest) \<Longrightarrow> execAll t = (target, instr) # execAll rest"
  by (subst execAll.simps) simp

text \<open>
  The cleaning never makes the text longer, and it keeps a text exactly when the scan
  finds nothing in it.
\<close>

lemma stripDirectives_length: "length (stripDirectives t) \<le> length t"
proof (induction "length t" arbitrary: t rule: less_induct)
  case less
  show ?case
  proof (cases "exec t")
    case None
    then show ?thesis by (simp add: stripDirectives_None)
  next
    case (Some m)
    obtain sk tg ins rest where m: "m = (sk, tg, ins, rest)" by (cases m) auto
    with Some have ex: "exec t = Some (sk, tg, ins, rest)" by simp
    have "length (stripDirectives rest) \<le> length rest"
      by (rule less.hyps[OF exec_length[OF ex]])
    moreover have "length t = length sk + length (sentinel @ tg @ separator @ ins @ separator) + length rest"
      using exec_sound[OF ex] by simp
    ultimately show ?thesis
      unfolding stripDirectives_Some[OF ex] by simp
  qed
qed

lemma stripDirectives_fixed: "stripDirectives t = t \<longleftrightarrow> execAll t = []"
proof (cases "exec t")
  case None
  then show ?thesis by (simp add: stripDirectives_None execAll_None)
next
  case (Some m)
  obtain sk tg ins rest where m: "m = (sk, tg, ins, rest)" by (cases m) auto
  with Some have ex: "exec t = Some (sk, tg, ins, rest)" by simp
  have "length t = length sk + length (sentinel @ tg @ separator @ ins @ separator) + length rest"
    using exec_sound[OF ex] by simp
  moreover have "length sentinel = 14" by (simp add: sentinel_def lit_def)
  moreover have "length (stripDirectives rest) \<le> length rest" by (rule stripDirectives_length)
  ultimately have "length (stripDirectives t) < length t"
    unfolding stripDirectives_Some[OF ex] by simp
  then have "stripDirectives t \<noteq> t" by auto
  moreover have "execAll t \<noteq> []" by (simp add: execAll_Some[OF ex])
  ultimately show ?thesis by simp
qed

text \<open>
  An answer in which one directive sits inside the sentinel of another: the removal of
  the inner directive joins the two halves of the outer sentinel.
\<close>

definition nestedAnswer :: jsstring where
  "nestedAnswer = lit '':::DELE:::DELEGATE:::a:::b:::GATE:::x:::y:::''"

text \<open>
  Claim C9. The cleaning of the text is idempotent: cleaning a cleaned text gives the same
  text, and a scan of a cleaned text finds no directive. The code cleans with a single
  pass, and at \<open>nestedAnswer\<close> the property does not hold of it: the scan finds one
  directive, the cleaned text is itself a directive, a second cleaning changes it (to
  the empty text), and a scan of the cleaned text finds one match.
\<close>

theorem strip_twice_differs:
  "execAll nestedAnswer = [(lit ''a'', lit ''b'')]
   \<and> stripDirectives nestedAnswer = lit '':::DELEGATE:::x:::y:::''
   \<and> stripDirectives (stripDirectives nestedAnswer) = []
   \<and> execAll (stripDirectives nestedAnswer) = [(lit ''x'', lit ''y'')]"
  by (simp add: nestedAnswer_def eval_defs)

text \<open>
  Claim C2. For an answer at depth 2 or more no follow-up is returned, and the directive
  markup is absent from the content shown. At \<open>nestedAnswer\<close>, given at depth 2 (to
  the call of Alice that \<open>deepRun\<close> leaves suspended), the first part holds: no
  follow-up is scheduled and the counter returns to 0. The second does not: the content
  recorded for the user is the directive \<open>:::DELEGATE:::x:::y:::\<close>, in which the scan
  finds a match.
\<close>

theorem deep_answer_keeps_directive:
  "followUpTasks asciiLower (team demoProps) alice 2 nestedAnswer = []
   \<and> map_option timers
       (run asciiLower demoProps (deepRun @ [Settle 0 (Fulfilled nestedAnswer (lit ''r3'') 6)])
          (initialState demoProps)) = Some []
   \<and> map_option activeTaskCount
       (run asciiLower demoProps (deepRun @ [Settle 0 (Fulfilled nestedAnswer (lit ''r3'') 6)])
          (initialState demoProps)) = Some 0
   \<and> map_option (map r_resultContent)
       (map_option taskResults
         (run asciiLower demoProps (deepRun @ [Settle 0 (Fulfilled nestedAnswer (lit ''r3'') 6)])
            (initialState demoProps))) = Some [lit '':::DELEGATE:::x:::y:::'', [], []]
   \<and> execAll (lit '':::DELEGATE:::x:::y:::'') = [(lit ''x'', lit ''y'')]"
  by (simp add: nestedAnswer_def deepRun_def eval_defs)

end
